theory Spec2Isabelle
  imports Main "HOL-Library.AList"
begin

section \<open>Strings\<close>

text \<open>
  A Python \<open>str\<close> is modelled as a \<open>string\<close> whose characters are the code points
  below 256 (ASCII and Latin-1).  The functions below are the library functions the
  program calls on such strings, restricted to that range.
\<close>

definition ascii_uppercase :: string where
  "ascii_uppercase = ''ABCDEFGHIJKLMNOPQRSTUVWXYZ''"

definition ascii_lowercase :: string where
  "ascii_lowercase = ''abcdefghijklmnopqrstuvwxyz''"

definition latin1_uppercase :: string where
  "latin1_uppercase =
     [CHR 0xC0, CHR 0xC1, CHR 0xC2, CHR 0xC3, CHR 0xC4, CHR 0xC5, CHR 0xC6, CHR 0xC7,
      CHR 0xC8, CHR 0xC9, CHR 0xCA, CHR 0xCB, CHR 0xCC, CHR 0xCD, CHR 0xCE, CHR 0xCF,
      CHR 0xD0, CHR 0xD1, CHR 0xD2, CHR 0xD3, CHR 0xD4, CHR 0xD5, CHR 0xD6,
      CHR 0xD8, CHR 0xD9, CHR 0xDA, CHR 0xDB, CHR 0xDC, CHR 0xDD, CHR 0xDE]"

definition latin1_lowercase :: string where
  "latin1_lowercase =
     [CHR 0xE0, CHR 0xE1, CHR 0xE2, CHR 0xE3, CHR 0xE4, CHR 0xE5, CHR 0xE6, CHR 0xE7,
      CHR 0xE8, CHR 0xE9, CHR 0xEA, CHR 0xEB, CHR 0xEC, CHR 0xED, CHR 0xEE, CHR 0xEF,
      CHR 0xF0, CHR 0xF1, CHR 0xF2, CHR 0xF3, CHR 0xF4, CHR 0xF5, CHR 0xF6,
      CHR 0xF8, CHR 0xF9, CHR 0xFA, CHR 0xFB, CHR 0xFC, CHR 0xFD, CHR 0xFE]"

definition uppercase :: string where
  "uppercase = ascii_uppercase @ latin1_uppercase"

definition lowercase :: string where
  "lowercase = ascii_lowercase @ latin1_lowercase"

definition lower_char :: "char \<Rightarrow> char" where
  "lower_char c = (case map_of (zip uppercase lowercase) c of Some d \<Rightarrow> d | None \<Rightarrow> c)"

definition upper_char :: "char \<Rightarrow> char" where
  "upper_char c = (case map_of (zip lowercase uppercase) c of Some d \<Rightarrow> d | None \<Rightarrow> c)"

definition lower :: "string \<Rightarrow> string" where
  \<comment> \<open>\<open>str.lower()\<close>\<close>
  "lower s = map lower_char s"

definition upper :: "string \<Rightarrow> string" where
  \<comment> \<open>\<open>str.upper()\<close>; the three Latin-1 letters whose capital lies outside the range
      (0xB5, 0xDF, 0xFF) are left as they are\<close>
  "upper s = map upper_char s"

definition whitespace :: string where
  \<comment> \<open>the characters below 256 for which \<open>str.isspace()\<close> holds\<close>
  "whitespace =
     [CHR 0x09, CHR 0x0A, CHR 0x0B, CHR 0x0C, CHR 0x0D, CHR 0x1C, CHR 0x1D, CHR 0x1E,
      CHR 0x1F, CHR 0x20, CHR 0x85, CHR 0xA0]"

definition isspace :: "char \<Rightarrow> bool" where
  "isspace c = (c \<in> set whitespace)"

definition strip :: "string \<Rightarrow> string" where
  \<comment> \<open>\<open>str.strip()\<close>\<close>
  "strip s = rev (dropWhile isspace (rev (dropWhile isspace s)))"

definition split_once :: "char \<Rightarrow> string \<Rightarrow> string list" where
  \<comment> \<open>\<open>s.split(sep, 1)\<close> for a one-character separator: one or two pieces\<close>
  "split_once sep s =
     (if sep \<in> set s then [takeWhile (\<lambda>c. c \<noteq> sep) s, tl (dropWhile (\<lambda>c. c \<noteq> sep) s)]
      else [s])"

definition rfind :: "char \<Rightarrow> string \<Rightarrow> nat option" where
  \<comment> \<open>\<open>s.rfind(c)\<close>, with \<open>None\<close> for the \<open>-1\<close> of Python\<close>
  "rfind c s =
     (if c \<in> set s then Some (length s - 1 - length (takeWhile (\<lambda>d. d \<noteq> c) (rev s)))
      else None)"

definition digit_chars :: string where
  "digit_chars = ''0123456789''"

fun str_nat :: "nat \<Rightarrow> string" where
  \<comment> \<open>\<open>str(i)\<close> for a non-negative integer: its decimal digits\<close>
  "str_nat n =
     (if n < 10 then [digit_chars ! n]
      else str_nat (n div 10) @ [digit_chars ! (n mod 10)])"

declare str_nat.simps [simp del]

section \<open>Category detection\<close>

definition mapping :: "(string \<times> string) list" where
  "mapping =
     [(''.png'', ''Images''), (''.jpg'', ''Images''), (''.jpeg'', ''Images''),
      (''.gif'', ''Images''), (''.bmp'', ''Images''), (''.webp'', ''Images''),
      (''.svg'', ''Images''), (''.ico'', ''Images''), (''.tiff'', ''Images''),
      (''.mp4'', ''Videos''), (''.mkv'', ''Videos''), (''.avi'', ''Videos''),
      (''.mov'', ''Videos''), (''.wmv'', ''Videos''), (''.flv'', ''Videos''),
      (''.webm'', ''Videos''), (''.m4v'', ''Videos''),
      (''.mp3'', ''Music''), (''.wav'', ''Music''), (''.flac'', ''Music''),
      (''.aac'', ''Music''), (''.ogg'', ''Music''), (''.m4a'', ''Music''),
      (''.wma'', ''Music''),
      (''.pdf'', ''Documents''), (''.txt'', ''Documents''), (''.doc'', ''Documents''),
      (''.docx'', ''Documents''), (''.xls'', ''Documents''), (''.xlsx'', ''Documents''),
      (''.ppt'', ''Documents''), (''.pptx'', ''Documents''),
      (''.exe'', ''Programs''), (''.msi'', ''Programs''), (''.deb'', ''Programs''),
      (''.dmg'', ''Programs''),
      (''.zip'', ''Archives''), (''.rar'', ''Archives''), (''.7z'', ''Archives''),
      (''.tar'', ''Archives''), (''.gz'', ''Archives''), (''.bz2'', ''Archives'')]"

definition get_category :: "string \<Rightarrow> string" where
  "get_category ext =
     (case map_of mapping (lower ext) of Some category \<Rightarrow> category | None \<Rightarrow> ''Others'')"

definition all_categories :: "string list" where
  \<comment> \<open>the seven folder names, in the order of the list in \<open>undo\<close>\<close>
  "all_categories =
     [''Images'', ''Videos'', ''Music'', ''Documents'', ''Programs'', ''Archives'', ''Others'']"

section \<open>Paths\<close>

text \<open>
  A \<open>pathlib.Path\<close> is modelled by the list of its components below the root
  \<open>/\<close> of a POSIX file system: \<open>[]\<close> is \<open>/\<close>, and \<open>[''home'', ''u'']\<close> is
  \<open>/home/u\<close>.  The file systems of the model hold regular files and directories
  only: they have no symbolic links, and no component of a path is \<open>..\<close>.  The
  characters of a name are those of a \<open>string\<close>, the code points \<open>U+0000\<close> to
  \<open>U+00FF\<close>.  Every property below is a property of the program on such file systems.
\<close>

type_synonym path = "string list"

definition parent :: "path \<Rightarrow> path" where
  \<comment> \<open>\<open>p.parent\<close>; the parent of the root is the root\<close>
  "parent p = butlast p"

definition name :: "path \<Rightarrow> string" where
  \<comment> \<open>\<open>p.name\<close>: the final component, empty for the root\<close>
  "name p = (if p = [] then [] else last p)"

definition suffix :: "path \<Rightarrow> string" where
  \<comment> \<open>\<open>p.suffix\<close>: from the last dot of the name on, unless that dot is the first or the
      last character of the name\<close>
  "suffix p =
     (case rfind (CHR ''.'') (name p) of
        Some i \<Rightarrow> if 0 < i \<and> i < length (name p) - 1 then drop i (name p) else []
      | None \<Rightarrow> [])"

definition stem :: "path \<Rightarrow> string" where
  \<comment> \<open>\<open>p.stem\<close>: the name without its suffix\<close>
  "stem p =
     (case rfind (CHR ''.'') (name p) of
        Some i \<Rightarrow> if 0 < i \<and> i < length (name p) - 1 then take i (name p) else name p
      | None \<Rightarrow> name p)"

definition valid_name :: "string \<Rightarrow> bool" where
  \<comment> \<open>the names a directory entry of the model can have\<close>
  "valid_name n = (n \<noteq> [] \<and> n \<noteq> ''.'' \<and> n \<noteq> ''..'' \<and> CHR ''/'' \<notin> set n)"

definition str_path :: "path \<Rightarrow> string" where
  \<comment> \<open>\<open>str(p)\<close> of an absolute path\<close>
  "str_path p = (if p = [] then ''/'' else concat (map (\<lambda>c. CHR ''/'' # c) p))"

fun split_on :: "(char \<Rightarrow> bool) \<Rightarrow> string \<Rightarrow> string list" where
  \<comment> \<open>the pieces of a string between the characters that satisfy \<open>sep\<close>\<close>
  "split_on sep [] = [[]]"
| "split_on sep (c # s) =
     (if sep c then [] # split_on sep s
      else (case split_on sep s of x # xs \<Rightarrow> (c # x) # xs | [] \<Rightarrow> [[c]]))"

definition Path :: "path \<Rightarrow> string \<Rightarrow> path" where
  \<comment> \<open>\<open>Path(s)\<close>: empty and \<open>.\<close> components are dropped; a string that does not start
      with \<open>/\<close> is relative to the working directory \<open>cwd\<close> of the process\<close>
  "Path cwd s =
     (let parts = filter (\<lambda>c. c \<noteq> [] \<and> c \<noteq> ''.'') (split_on (\<lambda>c. c = CHR ''/'') s)
      in if s \<noteq> [] \<and> hd s = CHR ''/'' then parts else cwd @ parts)"

section \<open>The file system\<close>

datatype node = File string | Dir

datatype error =
    FileExistsError | FileNotFoundError | NotADirectoryError | IsADirectoryError
  | PermissionError | OSError | ShutilError | ValueError

datatype message =
    Starting path | Moved string string | NoFiles string | Complete nat | UndoSaved
  | NothingToUndo | Undoing | Restored string | UndoComplete nat

text \<open>A reading of the clock, \<open>datetime.datetime.now()\<close>.\<close>

record datetime =
  year :: nat
  month :: nat
  day :: nat
  hour :: nat
  minute :: nat
  second :: nat

text \<open>
  The state of the program's world: the entries of the file system below \<open>/\<close> (the
  order of the list is the order in which the operating system enumerates a directory);
  the working directory of the process; the regular files that the operating system
  refuses to take out of their directory (a file of another user in a directory with the
  sticky bit, a file in a directory without write permission): they can be read and
  copied, but \<open>os.rename\<close> and \<open>os.unlink\<close> of them raise \<open>PermissionError\<close>; the
  messages the program has printed; the time the clock shows, and the times it will show
  at the readings after that (a clock with no later time keeps the one it shows).
\<close>

record world =
  fs :: "(path \<times> node) list"
  cwd :: path
  denied :: "path list"
  out :: "message list"
  time :: datetime
  later :: "datetime list"

definition lookup :: "world \<Rightarrow> path \<Rightarrow> node option" where
  "lookup w p = (if p = [] then Some Dir else map_of (fs w) p)"

definition exists :: "world \<Rightarrow> path \<Rightarrow> bool" where
  "exists w p = (lookup w p \<noteq> None)"

definition is_file :: "world \<Rightarrow> path \<Rightarrow> bool" where
  "is_file w p = (case lookup w p of Some (File c) \<Rightarrow> True | _ \<Rightarrow> False)"

definition is_dir :: "world \<Rightarrow> path \<Rightarrow> bool" where
  "is_dir w p = (lookup w p = Some Dir)"

definition below :: "path \<Rightarrow> path \<Rightarrow> bool" where
  \<comment> \<open>\<open>below d p\<close>: \<open>p\<close> is \<open>d\<close> or lies inside \<open>d\<close>\<close>
  "below d p = (take (length d) p = d)"

definition children :: "world \<Rightarrow> path \<Rightarrow> path list" where
  "children w d = [k. (k, v) \<leftarrow> fs w, k \<noteq> [], parent k = d]"

definition no_dir_error :: "world \<Rightarrow> path \<Rightarrow> error" where
  \<comment> \<open>the error of a path that is no directory: \<open>ENOTDIR\<close> when it or one of its
      ancestors is a regular file, \<open>ENOENT\<close> otherwise\<close>
  "no_dir_error w d =
     (if list_ex (\<lambda>n. is_file w (take n d)) [0 ..< Suc (length d)] then NotADirectoryError
      else FileNotFoundError)"

definition mkdir :: "path \<Rightarrow> world \<Rightarrow> (error \<times> world) + world" where
  \<comment> \<open>\<open>p.mkdir(exist_ok=True)\<close>\<close>
  "mkdir p w =
     (case lookup w p of
        Some Dir \<Rightarrow> Inr w
      | Some (File c) \<Rightarrow> Inl (FileExistsError, w)
      | None \<Rightarrow>
          if is_dir w (parent p) then Inr (w\<lparr>fs := AList.update p Dir (fs w)\<rparr>)
          else Inl (no_dir_error w (parent p), w))"

definition iterdir :: "path \<Rightarrow> world \<Rightarrow> (error \<times> world) + path list" where
  "iterdir d w = (if is_dir w d then Inr (children w d) else Inl (no_dir_error w d, w))"

definition rmdir :: "path \<Rightarrow> world \<Rightarrow> (error \<times> world) + world" where
  "rmdir d w =
     (if \<not> is_dir w d then Inl (no_dir_error w d, w)
      else if d = [] \<or> children w d \<noteq> [] then Inl (OSError, w)
      else Inr (w\<lparr>fs := AList.delete d (fs w)\<rparr>))"

definition unlink :: "path \<Rightarrow> world \<Rightarrow> (error \<times> world) + world" where
  "unlink p w =
     (case lookup w p of
        Some (File c) \<Rightarrow>
          if p \<in> set (denied w) then Inl (PermissionError, w)
          else Inr (w\<lparr>fs := AList.delete p (fs w)\<rparr>)
      | Some Dir \<Rightarrow> Inl (IsADirectoryError, w)
      | None \<Rightarrow> Inl (no_dir_error w p, w))"

definition read_text :: "path \<Rightarrow> world \<Rightarrow> (error \<times> world) + string" where
  \<comment> \<open>\<open>open(p, "r")\<close> and reading the whole file\<close>
  "read_text p w =
     (case lookup w p of
        Some (File c) \<Rightarrow> Inr c
      | Some Dir \<Rightarrow> Inl (IsADirectoryError, w)
      | None \<Rightarrow> Inl (no_dir_error w p, w))"

definition write_text :: "path \<Rightarrow> string \<Rightarrow> world \<Rightarrow> (error \<times> world) + world" where
  \<comment> \<open>\<open>open(p, "w")\<close>, writing \<open>content\<close> and closing the file\<close>
  "write_text p content w =
     (case lookup w p of
        Some Dir \<Rightarrow> Inl (IsADirectoryError, w)
      | Some (File c) \<Rightarrow> Inr (w\<lparr>fs := AList.update p (File content) (fs w)\<rparr>)
      | None \<Rightarrow>
          if is_dir w (parent p) then Inr (w\<lparr>fs := AList.update p (File content) (fs w)\<rparr>)
          else Inl (no_dir_error w (parent p), w))"

definition move_tree :: "path \<Rightarrow> path \<Rightarrow> (path \<times> node) list \<Rightarrow> (path \<times> node) list" where
  \<comment> \<open>the directory \<open>src\<close>, with everything inside it, becomes \<open>dst\<close>\<close>
  "move_tree src dst es =
     map (\<lambda>(k, v). (if below src k then dst @ drop (length src) k else k, v))
       (filter (\<lambda>(k, v). \<not> below dst k) es)"

definition os_rename :: "path \<Rightarrow> path \<Rightarrow> world \<Rightarrow> (error \<times> world) + world" where
  \<comment> \<open>\<open>os.rename(src, dst)\<close> of POSIX\<close>
  "os_rename src dst w =
     (case lookup w src of
        None \<Rightarrow> Inl (no_dir_error w src, w)
      | Some n \<Rightarrow>
          if \<not> is_dir w (parent dst) then Inl (no_dir_error w (parent dst), w)
          else if src = dst then Inr w
          else if src = [] \<or> dst = [] then Inl (OSError, w)
          else (case n of
                  File c \<Rightarrow>
                    if is_dir w dst then Inl (IsADirectoryError, w)
                    else if src \<in> set (denied w) then Inl (PermissionError, w)
                    else Inr (w\<lparr>fs := AList.update dst (File c) (AList.delete src (fs w))\<rparr>)
                | Dir \<Rightarrow>
                    if below src dst then Inl (OSError, w)
                    else if is_file w dst then Inl (NotADirectoryError, w)
                    else if is_dir w dst \<and> children w dst \<noteq> [] then Inl (OSError, w)
                    else Inr (w\<lparr>fs := move_tree src dst (fs w)\<rparr>)))"

definition copy2 :: "path \<Rightarrow> path \<Rightarrow> world \<Rightarrow> (error \<times> world) + world" where
  \<comment> \<open>\<open>shutil.copy2(src, dst)\<close> where \<open>dst\<close> is no directory: the content of the file
      \<open>src\<close> is written to \<open>dst\<close>\<close>
  "copy2 src dst w =
     (case lookup w src of
        None \<Rightarrow> Inl (no_dir_error w src, w)
      | Some Dir \<Rightarrow> Inl (IsADirectoryError, w)
      | Some (File c) \<Rightarrow> if src = dst then Inl (ShutilError, w) else write_text dst c w)"

definition shutil_move :: "path \<Rightarrow> path \<Rightarrow> world \<Rightarrow> (error \<times> world) + world" where
  \<comment> \<open>\<open>shutil.move(src, dst)\<close>: a destination that is a directory receives the source
      inside it.  Where \<open>os.rename\<close> raises, a source that is no directory is copied
      and then unlinked (the copy stays when the unlinking raises), and a directory is
      refused when the destination lies inside it or is a regular file.  The program
      makes the directory of the destination before it moves; the remaining case, a
      directory sent to a place whose directory does not exist, where \<open>shutil\<close> would
      build the missing directories and copy the tree, is left at the error of
      \<open>os.rename\<close>\<close>
  "shutil_move src dst w =
     (if is_dir w dst \<and> src \<noteq> dst \<and> (src = [] \<or> exists w (dst @ [name src]))
      then Inl (ShutilError, w)
      else
        (let real_dst = (if is_dir w dst \<and> src \<noteq> dst then dst @ [name src] else dst) in
         case os_rename src real_dst w of
           Inr w' \<Rightarrow> Inr w'
         | Inl e \<Rightarrow>
             if is_dir w src then
               (if below src dst then Inl (ShutilError, w)
                else if is_file w real_dst then Inl (FileExistsError, w)
                else Inl e)
             else
               (case copy2 src real_dst w of
                  Inl e' \<Rightarrow> Inl e'
                | Inr w1 \<Rightarrow> unlink src w1)))"

section \<open>Logging\<close>

definition LOG_FOLDER :: "path \<Rightarrow> path" where
  "LOG_FOLDER SOURCE_FOLDER = SOURCE_FOLDER @ [''Sort_Logs'']"

definition UNDO_FILE :: "path \<Rightarrow> path" where
  "UNDO_FILE SOURCE_FOLDER = LOG_FOLDER SOURCE_FOLDER @ [''last_undo.log'']"

definition ensure_log_folder :: "path \<Rightarrow> world \<Rightarrow> (error \<times> world) + world" where
  "ensure_log_folder SOURCE_FOLDER w = mkdir (LOG_FOLDER SOURCE_FOLDER) w"

definition print :: "message \<Rightarrow> world \<Rightarrow> world" where
  \<comment> \<open>\<open>print\<close>, to a standard output that takes every character of the messages (a
      terminal with the encoding UTF-8)\<close>
  "print m w = w\<lparr>out := out w @ [m]\<rparr>"

definition arrow :: string where
  \<comment> \<open>the arrow \<open>U+2192\<close> of the messages lies outside the characters of the model:
      it stands here as the three bytes of its UTF-8 encoding\<close>
  "arrow = [CHR 0xE2, CHR 0x86, CHR 0x92]"

definition dash :: string where
  \<comment> \<open>the dash \<open>U+2014\<close>, likewise\<close>
  "dash = [CHR 0xE2, CHR 0x80, CHR 0x94]"

definition message_text :: "message \<Rightarrow> string" where
  \<comment> \<open>the texts that the program prints and logs\<close>
  "message_text m =
     (case m of
        Starting p \<Rightarrow> ''Starting organization of: '' @ str_path p
      | Moved n c \<Rightarrow> ''MOVED: '' @ n @ '' '' @ arrow @ '' '' @ c @ ''/''
      | NoFiles c \<Rightarrow> ''No '' @ c @ '' files were found.''
      | Complete n \<Rightarrow> ''Organization complete! '' @ str_nat n @ '' files moved.'' @ [CHR 0x0A]
      | UndoSaved \<Rightarrow> ''Undo info saved.''
      | NothingToUndo \<Rightarrow> ''Nothing to undo '' @ dash @ '' no previous sort found.''
      | Undoing \<Rightarrow> ''Undoing the last sort...''
      | Restored n \<Rightarrow> ''Restored '' @ arrow @ '' '' @ n
      | UndoComplete n \<Rightarrow> [CHR 0x0A] @ ''Undo complete! '' @ str_nat n @ '' files restored.'')"

definition datetime_now :: "world \<Rightarrow> datetime \<times> world" where
  \<comment> \<open>\<open>datetime.datetime.now()\<close>\<close>
  "datetime_now w =
     (time w, case later w of [] \<Rightarrow> w | t # ts \<Rightarrow> w\<lparr>time := t, later := ts\<rparr>)"

definition two_digits :: "nat \<Rightarrow> string" where
  "two_digits n = (if n < 10 then ''0'' @ str_nat n else str_nat n)"

definition timestamp :: "datetime \<Rightarrow> string" where
  \<comment> \<open>\<open>strftime("%Y-%m-%d_%H%M%S")\<close>, for the years from 1000 on\<close>
  "timestamp t =
     str_nat (year t) @ ''-'' @ two_digits (month t) @ ''-'' @ two_digits (day t) @ ''_'' @
     two_digits (hour t) @ two_digits (minute t) @ two_digits (second t)"

definition clock_time :: "datetime \<Rightarrow> string" where
  \<comment> \<open>the format \<open>%H:%M:%S\<close>\<close>
  "clock_time t =
     two_digits (hour t) @ '':'' @ two_digits (minute t) @ '':'' @ two_digits (second t)"

definition log_line :: "datetime \<Rightarrow> message \<Rightarrow> string" where
  "log_line t message = ''['' @ clock_time t @ ''] '' @ message_text message @ [CHR 0x0A]"

definition open_append :: "path \<Rightarrow> world \<Rightarrow> (error \<times> world) + world" where
  \<comment> \<open>\<open>open(p, "a")\<close>: the file is created when it is not there\<close>
  "open_append p w =
     (case lookup w p of
        Some Dir \<Rightarrow> Inl (IsADirectoryError, w)
      | Some (File c) \<Rightarrow> Inr w
      | None \<Rightarrow>
          if is_dir w (parent p) then Inr (w\<lparr>fs := AList.update p (File []) (fs w)\<rparr>)
          else Inl (no_dir_error w (parent p), w))"

definition write_end :: "path \<Rightarrow> string \<Rightarrow> world \<Rightarrow> world" where
  \<comment> \<open>writing to a file opened for appending, and closing it\<close>
  "write_end p s w =
     (case lookup w p of
        Some (File c) \<Rightarrow> w\<lparr>fs := AList.update p (File (c @ s)) (fs w)\<rparr>
      | _ \<Rightarrow> w)"

definition log :: "path \<Rightarrow> message \<Rightarrow> world \<Rightarrow> (error \<times> world) + world" where
  \<comment> \<open>"Prints a message AND writes it into a timestamped log file."\<close>
  "log SOURCE_FOLDER message w =
     (case datetime_now (print message w) of (t, w1) \<Rightarrow>
        (let log_file = LOG_FOLDER SOURCE_FOLDER @ [''log_'' @ timestamp t @ ''.txt''] in
         case open_append log_file w1 of
           Inl e \<Rightarrow> Inl e
         | Inr w2 \<Rightarrow>
             (case datetime_now w2 of (t', w3) \<Rightarrow>
                Inr (write_end log_file (log_line t' message) w3))))"

section \<open>Organizing\<close>

text \<open>Decimal digits determine the number: the candidate names of the loop below differ.\<close>

lemma digit_chars_inj: "a < 10 \<Longrightarrow> b < 10 \<Longrightarrow> digit_chars ! a = digit_chars ! b \<Longrightarrow> a = b"
proof -
  assume "a < 10" "b < 10" "digit_chars ! a = digit_chars ! b"
  moreover have "distinct digit_chars" by (simp add: digit_chars_def)
  moreover have "length digit_chars = 10" by (simp add: digit_chars_def)
  ultimately show "a = b" by (simp add: nth_eq_iff_index_eq)
qed

lemma str_nat_not_Nil: "str_nat n \<noteq> []"
  by (subst str_nat.simps) simp

lemma str_nat_inj: "str_nat m = str_nat n \<Longrightarrow> m = n"
proof (induction m arbitrary: n rule: str_nat.induct)
  case (1 m)
  show ?case
  proof (cases "m < 10")
    case True
    show ?thesis
    proof (cases "n < 10")
      case n: True
      from "1.prems" True n have "digit_chars ! m = digit_chars ! n"
        by (simp add: str_nat.simps [of m] str_nat.simps [of n])
      with True n show ?thesis by (rule digit_chars_inj)
    next
      case n: False
      from "1.prems" True n have "str_nat (n div 10) = []"
        by (simp add: str_nat.simps [of m] str_nat.simps [of n])
      then show ?thesis by (simp add: str_nat_not_Nil)
    qed
  next
    case False
    show ?thesis
    proof (cases "n < 10")
      case n: True
      from "1.prems" False n have "str_nat (m div 10) = []"
        by (simp add: str_nat.simps [of m] str_nat.simps [of n])
      then show ?thesis by (simp add: str_nat_not_Nil)
    next
      case n: False
      from "1.prems" False n
      have eq: "str_nat (m div 10) = str_nat (n div 10)"
        and d: "digit_chars ! (m mod 10) = digit_chars ! (n mod 10)"
        by (simp_all add: str_nat.simps [of m] str_nat.simps [of n])
      from "1.IH" [OF False eq] have "m div 10 = n div 10" .
      moreover from d have "m mod 10 = n mod 10" by (intro digit_chars_inj) simp_all
      ultimately show ?thesis by (metis div_mult_mod_eq)
    qed
  qed
qed

text \<open>
  The loop of \<open>organize\<close> that handles duplicate file names: while \<open>dest_path\<close> exists,
  the next candidate \<open>stem_i suffix\<close> is tried.
\<close>

function resolve_collision ::
  "world \<Rightarrow> path \<Rightarrow> string \<Rightarrow> string \<Rightarrow> nat \<Rightarrow> path \<Rightarrow> path" where
  "resolve_collision w dest_folder stm sfx i dest_path =
     (if exists w dest_path
      then resolve_collision w dest_folder stm sfx (i + 1)
             (dest_folder @ [stm @ ''_'' @ str_nat i @ sfx])
      else dest_path)"
  by pat_completeness auto
termination
proof -
  let ?cand = "\<lambda>df stm sfx (j::nat). df @ [stm @ ''_'' @ str_nat j @ sfx]"
  let ?K = "\<lambda>(w::world) df stm sfx i. {j. i \<le> j \<and> exists w (?cand df stm sfx j)}"
  have fin: "finite (?K w df stm sfx i)" for w df stm sfx i
  proof -
    have "inj (?cand df stm sfx)" by (auto simp: inj_def dest: str_nat_inj)
    then have "finite (?cand df stm sfx -` fst ` set (fs w))"
      by (intro finite_vimageI) simp_all
    moreover have "?K w df stm sfx i \<subseteq> ?cand df stm sfx -` fst ` set (fs w)"
      by (auto simp: exists_def lookup_def map_of_eq_None_iff)
    ultimately show ?thesis by (rule rev_finite_subset)
  qed
  show ?thesis
  proof (relation "measure (\<lambda>(w, df, stm, sfx, i, dp).
           card (?K w df stm sfx i) + (if exists w dp then 1 else 0))", goal_cases)
    case 1
    show ?case by simp
  next
    case (2 w dest_folder stm sfx i dest_path)
    have sub: "?K w dest_folder stm sfx (i + 1) \<subseteq> ?K w dest_folder stm sfx i" by auto
    show ?case
    proof (cases "exists w (?cand dest_folder stm sfx i)")
      case True
      then have "i \<in> ?K w dest_folder stm sfx i" "i \<notin> ?K w dest_folder stm sfx (i + 1)"
        by auto
      with sub have "?K w dest_folder stm sfx (i + 1) \<subset> ?K w dest_folder stm sfx i"
        by blast
      then have "card (?K w dest_folder stm sfx (i + 1)) < card (?K w dest_folder stm sfx i)"
        by (intro psubset_card_mono fin)
      with 2 True show ?thesis by simp
    next
      case False
      have "card (?K w dest_folder stm sfx (i + 1)) \<le> card (?K w dest_folder stm sfx i)"
        by (intro card_mono fin sub)
      with 2 False show ?thesis by simp
    qed
  qed
qed

declare resolve_collision.simps [simp del]

text \<open>
  \<open>category_count\<close> is a \<open>defaultdict(int)\<close>: a key is created, with the count 0, when
  it is first read.
\<close>

type_synonym counts = "(string \<times> nat) list"

definition count_of :: "counts \<Rightarrow> string \<Rightarrow> nat" where
  "count_of category_count c = (case map_of category_count c of Some n \<Rightarrow> n | None \<Rightarrow> 0)"

definition touch :: "string \<Rightarrow> counts \<Rightarrow> counts" where
  \<comment> \<open>reading \<open>category_count[c]\<close>\<close>
  "touch c category_count = AList.update c (count_of category_count c) category_count"

definition increment :: "string \<Rightarrow> counts \<Rightarrow> counts" where
  \<comment> \<open>\<open>category_count[c] += 1\<close>\<close>
  "increment c category_count = AList.update c (count_of category_count c + 1) category_count"

type_synonym moves = "(path \<times> path) list"

definition resolve_dest_path :: "world \<Rightarrow> path \<Rightarrow> path \<Rightarrow> path" where
  \<comment> \<open>the destination path of \<open>item\<close> in \<open>dest_folder\<close>, duplicate file names handled\<close>
  "resolve_dest_path w dest_folder item =
     (let dest_path = dest_folder @ [name item] in
      if exists w dest_path
      then resolve_collision w dest_folder (stem item) (suffix item) 1 dest_path
      else dest_path)"

definition organize_item ::
  "path \<Rightarrow> path \<Rightarrow> world \<times> moves \<times> counts \<Rightarrow> (error \<times> world) + (world \<times> moves \<times> counts)" where
  \<comment> \<open>the body of the loop over \<open>SOURCE_FOLDER.iterdir()\<close>\<close>
  "organize_item SOURCE_FOLDER item st =
     (case st of (w, moves, category_count) \<Rightarrow>
        if is_file w item \<and> name item \<noteq> ''organizer.py'' then
          (let category = get_category (suffix item);
               dest_folder = SOURCE_FOLDER @ [category] in
           case mkdir dest_folder w of
             Inl e \<Rightarrow> Inl e
           | Inr w1 \<Rightarrow>
               (let dest_path = resolve_dest_path w1 dest_folder item in
                case shutil_move item dest_path w1 of
                  Inl e \<Rightarrow> Inl e
                | Inr w2 \<Rightarrow>
                    (case log SOURCE_FOLDER (Moved (name item) category) w2 of
                       Inl e \<Rightarrow> Inl e
                     | Inr w3 \<Rightarrow>
                         Inr (w3, moves @ [(dest_path, item)],
                              increment category category_count))))
        else Inr st)"

fun organize_loop ::
  "path \<Rightarrow> path list \<Rightarrow> world \<times> moves \<times> counts \<Rightarrow>
     (error \<times> world) + (world \<times> moves \<times> counts)" where
  "organize_loop SOURCE_FOLDER [] st = Inr st"
| "organize_loop SOURCE_FOLDER (item # items) st =
     (case organize_item SOURCE_FOLDER item st of
        Inl e \<Rightarrow> Inl e
      | Inr st' \<Rightarrow> organize_loop SOURCE_FOLDER items st')"

fun report_empty ::
  "path \<Rightarrow> string list \<Rightarrow> counts \<times> world \<Rightarrow> (error \<times> world) + (counts \<times> world)" where
  \<comment> \<open>the loop over \<open>all_categories\<close>, a Python set: the order of its lines in the log is
      not fixed by the program, the list's order is taken here\<close>
  "report_empty SOURCE_FOLDER [] st = Inr st"
| "report_empty SOURCE_FOLDER (cat # cats) (category_count, w) =
     (if count_of category_count cat = 0 then
        (case log SOURCE_FOLDER (NoFiles (lower cat)) w of
           Inl e \<Rightarrow> Inl e
         | Inr w1 \<Rightarrow> report_empty SOURCE_FOLDER cats (touch cat category_count, w1))
      else report_empty SOURCE_FOLDER cats (touch cat category_count, w))"

definition ledger_line :: "path \<times> path \<Rightarrow> string" where
  "ledger_line m = (case m of (new_path, old_path) \<Rightarrow>
     str_path new_path @ ''|'' @ str_path old_path @ [CHR 0x0A])"

definition organize :: "path \<Rightarrow> world \<Rightarrow> (error \<times> world) + world" where
  "organize SOURCE_FOLDER w =
     (case ensure_log_folder SOURCE_FOLDER w of
        Inl e \<Rightarrow> Inl e
      | Inr w1 \<Rightarrow>
     (case log SOURCE_FOLDER (Starting SOURCE_FOLDER) w1 of
        Inl e \<Rightarrow> Inl e
      | Inr w2 \<Rightarrow>
     (case iterdir SOURCE_FOLDER w2 of
        Inl e \<Rightarrow> Inl e
      | Inr items \<Rightarrow>
     (case organize_loop SOURCE_FOLDER items (w2, [], []) of
        Inl e \<Rightarrow> Inl e
      | Inr (w3, moves, category_count) \<Rightarrow>
     (case report_empty SOURCE_FOLDER all_categories (category_count, w3) of
        Inl e \<Rightarrow> Inl e
      | Inr (category_count', w4) \<Rightarrow>
     (case log SOURCE_FOLDER (Complete (sum_list (map snd category_count'))) w4 of
        Inl e \<Rightarrow> Inl e
      | Inr w5 \<Rightarrow>
     (case write_text (UNDO_FILE SOURCE_FOLDER) (concat (map ledger_line moves)) w5 of
        Inl e \<Rightarrow> Inl e
      | Inr w6 \<Rightarrow> log SOURCE_FOLDER UndoSaved w6)))))))"

section \<open>Undoing\<close>

definition file_lines :: "string \<Rightarrow> string list" where
  \<comment> \<open>the lines of a text file read with universal newlines, without their line
      breaks: \<open>undo\<close> strips each line and skips the empty ones, so only the text between
      the line breaks matters\<close>
  "file_lines content = split_on (\<lambda>c. c = CHR 0x0A \<or> c = CHR 0x0D) content"

definition restore :: "path \<Rightarrow> path \<Rightarrow> world \<times> nat \<Rightarrow> (error \<times> world) + (world \<times> nat)" where
  \<comment> \<open>"Move file back if it still exists"\<close>
  "restore new_path old_path st =
     (case st of (w, count) \<Rightarrow>
        if exists w new_path then
          (case mkdir (parent old_path) w of
             Inl e \<Rightarrow> Inl e
           | Inr w1 \<Rightarrow>
               (case shutil_move new_path old_path w1 of
                  Inl e \<Rightarrow> Inl e
                | Inr w2 \<Rightarrow> Inr (print (Restored (name old_path)) w2, count + 1)))
        else Inr st)"

definition ledger_records :: "string \<Rightarrow> string list list" where
  \<comment> \<open>what the loop over the lines of the undo file sees: each line stripped, the empty
      ones skipped, the others split at the first \<open>|\<close>; none of this depends on the state,
      so the lines are parsed here before the loop runs\<close>
  "ledger_records content =
     map (split_once (CHR ''|'')) (filter (\<lambda>line. line \<noteq> []) (map strip (file_lines content)))"

definition undo_record ::
  "string list \<Rightarrow> world \<times> nat \<Rightarrow> (error \<times> world) + (world \<times> nat)" where
  \<comment> \<open>the body of the loop for one line; unpacking anything but two pieces raises\<close>
  "undo_record pieces st =
     (case st of (w, count) \<Rightarrow>
        (case pieces of
           [new_path_str, old_path_str] \<Rightarrow>
             restore (Path (cwd w) new_path_str) (Path (cwd w) old_path_str) st
         | _ \<Rightarrow> Inl (ValueError, w)))"

fun undo_records ::
  "string list list \<Rightarrow> world \<times> nat \<Rightarrow> (error \<times> world) + (world \<times> nat)" where
  "undo_records [] st = Inr st"
| "undo_records (pieces # rest) st =
     (case undo_record pieces st of
        Inl e \<Rightarrow> Inl e
      | Inr st' \<Rightarrow> undo_records rest st')"

fun remove_empty_folders :: "path \<Rightarrow> string list \<Rightarrow> world \<Rightarrow> (error \<times> world) + world" where
  "remove_empty_folders SOURCE_FOLDER [] w = Inr w"
| "remove_empty_folders SOURCE_FOLDER (folder_name # folder_names) w =
     (let folder = SOURCE_FOLDER @ [folder_name] in
      if exists w folder then
        (case iterdir folder w of
           Inl e \<Rightarrow> Inl e
         | Inr entries \<Rightarrow>
             if entries = [] then
               (case rmdir folder w of
                  Inl e \<Rightarrow> Inl e
                | Inr w' \<Rightarrow> remove_empty_folders SOURCE_FOLDER folder_names w')
             else remove_empty_folders SOURCE_FOLDER folder_names w)
      else remove_empty_folders SOURCE_FOLDER folder_names w)"

definition undo :: "path \<Rightarrow> world \<Rightarrow> (error \<times> world) + world" where
  "undo SOURCE_FOLDER w =
     (if \<not> exists w (UNDO_FILE SOURCE_FOLDER) then Inr (print NothingToUndo w)
      else
        (let w1 = print Undoing w in
         case read_text (UNDO_FILE SOURCE_FOLDER) w1 of
           Inl e \<Rightarrow> Inl e
         | Inr content \<Rightarrow>
             (case undo_records (ledger_records content) (w1, 0) of
                Inl e \<Rightarrow> Inl e
              | Inr (w2, count) \<Rightarrow>
                  (case remove_empty_folders SOURCE_FOLDER all_categories w2 of
                     Inl e \<Rightarrow> Inl e
                   | Inr w3 \<Rightarrow>
                       (case unlink (UNDO_FILE SOURCE_FOLDER) w3 of
                          Inl e \<Rightarrow> Inl e
                        | Inr w4 \<Rightarrow> Inr (print (UndoComplete count) w4))))))"

section \<open>Auxiliary notions for the properties\<close>

definition tree_shaped :: "world \<Rightarrow> bool" where
  \<comment> \<open>the entries form a tree: no path is listed twice, every component is a name, and
      every entry lies in a directory\<close>
  "tree_shaped w =
     (distinct (map fst (fs w)) \<and>
      list_all (\<lambda>(k, v). list_all valid_name k \<and> is_dir w (parent k)) (fs w))"

definition is_log_file :: "path \<Rightarrow> path \<Rightarrow> bool" where
  \<comment> \<open>the paths at which \<open>log\<close> can write: the entries of \<open>Sort_Logs\<close> whose name
      begins with \<open>log_\<close>\<close>
  "is_log_file SOURCE_FOLDER q =
     (q \<noteq> [] \<and> parent q = LOG_FOLDER SOURCE_FOLDER \<and> take 4 (name q) = ''log_'')"

definition loggable :: "path \<Rightarrow> world \<Rightarrow> bool" where
  \<comment> \<open>no directory stands where \<open>log\<close> may have to write\<close>
  "loggable SOURCE_FOLDER w =
     list_all (\<lambda>q. is_log_file SOURCE_FOLDER q \<longrightarrow> \<not> is_dir w q)
       (children w (LOG_FOLDER SOURCE_FOLDER))"

definition eligible :: "world \<Rightarrow> path \<Rightarrow> bool" where
  \<comment> \<open>the entries that the loop of \<open>organize\<close> moves\<close>
  "eligible w item = (is_file w item \<and> name item \<noteq> ''organizer.py'')"

definition category_of :: "path \<Rightarrow> string" where
  "category_of item = get_category (suffix item)"

definition renamed :: "path \<Rightarrow> string \<Rightarrow> bool" where
  \<comment> \<open>the names that \<open>organize\<close> can give to \<open>item\<close> in its category folder\<close>
  "renamed item x =
     (x = name item \<or> (\<exists>N. x = stem item @ ''_'' @ str_nat N @ suffix item))"

definition plain_char :: "char \<Rightarrow> bool" where
  \<comment> \<open>a character that a line of the undo file carries unharmed\<close>
  "plain_char c = (c \<noteq> CHR ''|'' \<and> c \<noteq> CHR 0x0A \<and> c \<noteq> CHR 0x0D)"

definition moved :: "path \<Rightarrow> world \<Rightarrow> world \<Rightarrow> moves \<Rightarrow> path \<times> path \<Rightarrow> bool" where
  \<comment> \<open>the move \<open>m\<close>, one of the moves \<open>new\<close> that lead from \<open>w\<close> to \<open>w'\<close>: its destination
      was free in \<open>w\<close>, lies in the folder of its file's category, and holds in \<open>w'\<close> what
      the original path held in \<open>w\<close>; the original path is free in \<open>w'\<close> unless a category
      folder was created at it; and the category folder was no file in \<open>w\<close>, or a file that
      has been moved\<close>
  "moved SOURCE_FOLDER w w' new m =
     ((\<exists>x. fst m = SOURCE_FOLDER @ [category_of (snd m), x] \<and> renamed (snd m) x) \<and>
      lookup w (fst m) = None \<and> lookup w' (fst m) = lookup w (snd m) \<and>
      eligible w (snd m) \<and> is_dir w' (SOURCE_FOLDER @ [category_of (snd m)]) \<and>
      snd m \<notin> set (denied w) \<and>
      (is_file w (SOURCE_FOLDER @ [category_of (snd m)]) \<longrightarrow>
         SOURCE_FOLDER @ [category_of (snd m)] \<in> snd ` set new) \<and>
      ((\<forall>m2\<in>set new. snd m \<noteq> SOURCE_FOLDER @ [category_of (snd m2)]) \<longrightarrow>
         lookup w' (snd m) = None))"

definition organized :: "path \<Rightarrow> world \<Rightarrow> world \<Rightarrow> moves \<Rightarrow> bool" where
  \<comment> \<open>\<open>organized SOURCE_FOLDER w w' new\<close>: the world \<open>w'\<close> is \<open>w\<close> after the moves \<open>new\<close> into
      the category folders; every path that is no destination, no original path, no
      category folder in use and no log file is as it was, and a log file is a regular
      file or what it was\<close>
  "organized SOURCE_FOLDER w w' new =
     (distinct (map fst new) \<and>
      (\<forall>m\<in>set new. moved SOURCE_FOLDER w w' new m) \<and>
      (\<forall>q. q \<notin> fst ` set new \<and> q \<notin> snd ` set new \<and>
           (\<forall>m\<in>set new. q \<noteq> SOURCE_FOLDER @ [category_of (snd m)]) \<and>
           \<not> is_log_file SOURCE_FOLDER q \<longrightarrow>
           lookup w' q = lookup w q) \<and>
      (\<forall>q. is_log_file SOURCE_FOLDER q \<longrightarrow> lookup w' q = lookup w q \<or> is_file w' q) \<and>
      cwd w' = cwd w \<and> denied w' = denied w)"

section \<open>Example worlds\<close>

definition noon :: datetime where
  "noon = \<lparr>year = 2024, month = 1, day = 1, hour = 12, minute = 0, second = 0\<rparr>"

definition plain_world :: "(path \<times> node) list \<Rightarrow> world" where
  \<comment> \<open>a world with the given entries in which every move is permitted; the clock
      stands at noon\<close>
  "plain_world entries =
     \<lparr>fs = entries, cwd = [''home''], denied = [], out = [], time = noon, later = []\<rparr>"

definition session_log :: "message list \<Rightarrow> path \<times> node" where
  \<comment> \<open>the log file of a session in \<open>/d\<close> at noon, with the lines of the given messages\<close>
  "session_log ms =
     ([''d'', ''Sort_Logs'', ''log_2024-01-01_120000.txt''], File (concat (map (log_line noon) ms)))"

definition dup_world :: world where
  \<comment> \<open>\<open>/d\<close> after an earlier \<open>a.txt\<close> was sorted and a new \<open>a.txt\<close> was put into it\<close>
  "dup_world = plain_world
     [([''d''], Dir), ([''d'', ''Sort_Logs''], Dir), ([''d'', ''Documents''], Dir),
      ([''d'', ''Documents'', ''a.txt''], File ''first''),
      ([''d'', ''a.txt''], File ''second'')]"

definition repo_world :: world where
  \<comment> \<open>\<open>/d\<close> holds the program under the name it has in its repository, and a text file\<close>
  "repo_world = plain_world
     [([''d''], Dir), ([''d'', ''Organizer.py''], File ''code''),
      ([''d'', ''notes.txt''], File ''N'')]"

definition locked_world :: world where
  \<comment> \<open>\<open>/d\<close> holds three text files; the operating system refuses to take \<open>b.txt\<close> out
      of \<open>/d\<close>\<close>
  "locked_world =
     (plain_world
        [([''d''], Dir), ([''d'', ''a.txt''], File ''A''), ([''d'', ''b.txt''], File ''B''),
         ([''d'', ''c.txt''], File ''C'')])
     \<lparr>denied := [[''d'', ''b.txt'']]\<rparr>"

definition images_world :: world where
  \<comment> \<open>\<open>/d\<close> holds a file named \<open>Images\<close>, enumerated first, and a picture\<close>
  "images_world = plain_world
     [([''d''], Dir), ([''d'', ''Images''], File ''P''), ([''d'', ''x.png''], File ''X'')]"

definition docs_world :: world where
  \<comment> \<open>\<open>/d\<close> holds one file, named \<open>Documents\<close>\<close>
  "docs_world = plain_world [([''d''], Dir), ([''d'', ''Documents''], File ''P'')]"

definition fresh_world :: world where
  \<comment> \<open>\<open>/d\<close> holds two files and has never been organized\<close>
  "fresh_world = plain_world
     [([''d''], Dir), ([''d'', ''photo.png''], File ''P''), ([''d'', ''notes.txt''], File ''N'')]"

definition pipe_world :: world where
  \<comment> \<open>\<open>/d\<close> holds one file, with a vertical bar in its name\<close>
  "pipe_world = plain_world [([''d''], Dir), ([''d'', ''a|b.txt''], File ''A'')]"

text \<open>The worlds that the runs of the examples leave behind.\<close>

definition dup_world_sorted :: world where
  "dup_world_sorted =
     (plain_world
        [([''d''], Dir), ([''d'', ''Sort_Logs''], Dir), ([''d'', ''Documents''], Dir),
         ([''d'', ''Documents'', ''a.txt''], File ''first''),
         ([''d'', ''Documents'', ''a_1.txt''], File ''second''),
         session_log [Moved ''a.txt'' ''Documents'']])
     \<lparr>out := [Moved ''a.txt'' ''Documents'']\<rparr>"

definition session_world :: "(path \<times> node) list \<Rightarrow> message list \<Rightarrow> (path \<times> node) list \<Rightarrow> world" where
  \<comment> \<open>a world after a session at noon with the given messages, all of them logged: the
      entries enumerated before and after the log file of the session\<close>
  "session_world before ms after = (plain_world (before @ session_log ms # after))\<lparr>out := ms\<rparr>"

definition fresh_world_sorted :: world where
  "fresh_world_sorted =
     session_world [([''d''], Dir), ([''d'', ''Sort_Logs''], Dir)]
       [Starting [''d''], Moved ''photo.png'' ''Images'', Moved ''notes.txt'' ''Documents'',
        NoFiles ''videos'', NoFiles ''music'', NoFiles ''programs'', NoFiles ''archives'',
        NoFiles ''others'', Complete 2, UndoSaved]
       [([''d'', ''Images''], Dir), ([''d'', ''Images'', ''photo.png''], File ''P''),
        ([''d'', ''Documents''], Dir), ([''d'', ''Documents'', ''notes.txt''], File ''N''),
        ([''d'', ''Sort_Logs'', ''last_undo.log''],
         File (ledger_line ([''d'', ''Images'', ''photo.png''], [''d'', ''photo.png'']) @
               ledger_line ([''d'', ''Documents'', ''notes.txt''], [''d'', ''notes.txt''])))]"

definition locked_world_after :: world where
  "locked_world_after =
     (session_world
        [([''d''], Dir), ([''d'', ''b.txt''], File ''B''), ([''d'', ''c.txt''], File ''C''),
         ([''d'', ''Sort_Logs''], Dir)]
        [Starting [''d''], Moved ''a.txt'' ''Documents'']
        [([''d'', ''Documents''], Dir), ([''d'', ''Documents'', ''a.txt''], File ''A''),
         ([''d'', ''Documents'', ''b.txt''], File ''B'')])
     \<lparr>denied := [[''d'', ''b.txt'']]\<rparr>"

definition half_world :: world where
  \<comment> \<open>\<open>/d\<close> holds two text files; the operating system refuses to take the second out
      of \<open>/d\<close>\<close>
  "half_world =
     (plain_world
        [([''d''], Dir), ([''d'', ''a.txt''], File ''A''), ([''d'', ''b.txt''], File ''B'')])
     \<lparr>denied := [[''d'', ''b.txt'']]\<rparr>"

definition half_world_after :: world where
  "half_world_after =
     (session_world
        [([''d''], Dir), ([''d'', ''b.txt''], File ''B''), ([''d'', ''Sort_Logs''], Dir)]
        [Starting [''d''], Moved ''a.txt'' ''Documents'']
        [([''d'', ''Documents''], Dir), ([''d'', ''Documents'', ''a.txt''], File ''A''),
         ([''d'', ''Documents'', ''b.txt''], File ''B'')])
     \<lparr>denied := [[''d'', ''b.txt'']]\<rparr>"

definition repo_world_sorted :: world where
  "repo_world_sorted =
     session_world [([''d''], Dir), ([''d'', ''Sort_Logs''], Dir)]
       [Starting [''d''], Moved ''Organizer.py'' ''Others'', Moved ''notes.txt'' ''Documents'',
        NoFiles ''images'', NoFiles ''videos'', NoFiles ''music'', NoFiles ''programs'',
        NoFiles ''archives'', Complete 2, UndoSaved]
       [([''d'', ''Others''], Dir), ([''d'', ''Others'', ''Organizer.py''], File ''code''),
        ([''d'', ''Documents''], Dir), ([''d'', ''Documents'', ''notes.txt''], File ''N''),
        ([''d'', ''Sort_Logs'', ''last_undo.log''],
         File (ledger_line ([''d'', ''Others'', ''Organizer.py''], [''d'', ''Organizer.py'']) @
               ledger_line ([''d'', ''Documents'', ''notes.txt''], [''d'', ''notes.txt''])))]"

definition images_world_sorted :: world where
  "images_world_sorted =
     session_world [([''d''], Dir), ([''d'', ''Sort_Logs''], Dir)]
       [Starting [''d''], Moved ''Images'' ''Others'', Moved ''x.png'' ''Images'',
        NoFiles ''videos'', NoFiles ''music'', NoFiles ''documents'', NoFiles ''programs'',
        NoFiles ''archives'', Complete 2, UndoSaved]
       [([''d'', ''Others''], Dir), ([''d'', ''Others'', ''Images''], File ''P''),
        ([''d'', ''Images''], Dir), ([''d'', ''Images'', ''x.png''], File ''X''),
        ([''d'', ''Sort_Logs'', ''last_undo.log''],
         File (ledger_line ([''d'', ''Others'', ''Images''], [''d'', ''Images'']) @
               ledger_line ([''d'', ''Images'', ''x.png''], [''d'', ''x.png''])))]"

definition images_world_undone :: world where
  "images_world_undone =
     (session_world [([''d''], Dir), ([''d'', ''Sort_Logs''], Dir)]
        [Starting [''d''], Moved ''Images'' ''Others'', Moved ''x.png'' ''Images'',
         NoFiles ''videos'', NoFiles ''music'', NoFiles ''documents'', NoFiles ''programs'',
         NoFiles ''archives'', Complete 2, UndoSaved]
        [([''d'', ''Images''], Dir), ([''d'', ''Images'', ''Images''], File ''P''),
         ([''d'', ''x.png''], File ''X'')])
     \<lparr>out := out images_world_sorted @
             [Undoing, Restored ''Images'', Restored ''x.png'', UndoComplete 2]\<rparr>"

definition docs_world_sorted :: world where
  "docs_world_sorted =
     session_world [([''d''], Dir), ([''d'', ''Sort_Logs''], Dir)]
       [Starting [''d''], Moved ''Documents'' ''Others'', NoFiles ''images'',
        NoFiles ''videos'', NoFiles ''music'', NoFiles ''documents'', NoFiles ''programs'',
        NoFiles ''archives'', Complete 1, UndoSaved]
       [([''d'', ''Others''], Dir), ([''d'', ''Others'', ''Documents''], File ''P''),
        ([''d'', ''Sort_Logs'', ''last_undo.log''],
         File (ledger_line ([''d'', ''Others'', ''Documents''], [''d'', ''Documents''])))]"

definition docs_world_stuck :: world where
  "docs_world_stuck =
     (session_world [([''d''], Dir), ([''d'', ''Sort_Logs''], Dir)]
        [Starting [''d''], Moved ''Documents'' ''Others'', NoFiles ''images'',
         NoFiles ''videos'', NoFiles ''music'', NoFiles ''documents'', NoFiles ''programs'',
         NoFiles ''archives'', Complete 1, UndoSaved]
        [([''d'', ''Others''], Dir),
         ([''d'', ''Sort_Logs'', ''last_undo.log''],
          File (ledger_line ([''d'', ''Others'', ''Documents''], [''d'', ''Documents''])))
         , ([''d'', ''Documents''], File ''P'')])
     \<lparr>out := out docs_world_sorted @ [Undoing, Restored ''Documents'']\<rparr>"

definition pipe_world_sorted :: world where
  "pipe_world_sorted =
     session_world [([''d''], Dir), ([''d'', ''Sort_Logs''], Dir)]
       [Starting [''d''], Moved ''a|b.txt'' ''Documents'', NoFiles ''images'',
        NoFiles ''videos'', NoFiles ''music'', NoFiles ''programs'', NoFiles ''archives'',
        NoFiles ''others'', Complete 1, UndoSaved]
       [([''d'', ''Documents''], Dir), ([''d'', ''Documents'', ''a|b.txt''], File ''A''),
        ([''d'', ''Sort_Logs'', ''last_undo.log''],
         File (ledger_line ([''d'', ''Documents'', ''a|b.txt''], [''d'', ''a|b.txt''])))]"

definition pipe_world_undone :: world where
  "pipe_world_undone =
     (session_world [([''d''], Dir), ([''d'', ''Sort_Logs''], Dir)]
        [Starting [''d''], Moved ''a|b.txt'' ''Documents'', NoFiles ''images'',
         NoFiles ''videos'', NoFiles ''music'', NoFiles ''programs'', NoFiles ''archives'',
         NoFiles ''others'', Complete 1, UndoSaved]
        [([''d'', ''Documents''], Dir), ([''d'', ''Documents'', ''a|b.txt''], File ''A'')])
     \<lparr>out := out pipe_world_sorted @ [Undoing, UndoComplete 0]\<rparr>"

section \<open>Properties of the category detection\<close>

lemma mapping_entries:
  "list_all (\<lambda>(e, c). lower e = e \<and> c \<in> set all_categories \<and> map_of mapping e = Some c
      \<and> get_category (tl e) = ''Others'') mapping"
  by code_simp

lemma mapping_entry:
  assumes "map_of mapping e = Some c"
  shows "lower e = e" and "c \<in> set all_categories" and "get_category (tl e) = ''Others''"
proof -
  from assms have "(e, c) \<in> set mapping" by (rule map_of_SomeD)
  with mapping_entries
  have "lower e = e \<and> c \<in> set all_categories \<and> get_category (tl e) = ''Others''"
    by (auto simp: list_all_iff)
  then show "lower e = e" and "c \<in> set all_categories" and "get_category (tl e) = ''Others''"
    by simp_all
qed

lemma get_category_in_all: "get_category ext \<in> set all_categories"
proof (cases "map_of mapping (lower ext)")
  case None
  then show ?thesis by (simp add: get_category_def all_categories_def)
next
  case (Some c)
  then show ?thesis using mapping_entry(2) [OF Some] by (simp add: get_category_def)
qed

subsection \<open>Upper and lower case\<close>

lemma lower_upper_char: "\<forall>c. lower_char (upper_char c) = lower_char c"
  by code_simp

lemma lower_lower_char: "\<forall>c. lower_char (lower_char c) = lower_char c"
  by code_simp

lemma lower_upper: "lower (upper s) = lower s"
  by (simp add: lower_def upper_def lower_upper_char)

lemma lower_lower: "lower (lower s) = lower s"
  by (simp add: lower_def lower_lower_char)

text \<open>
  C7, as stated, fails: the table's keys carry the leading dot and \<open>get_category\<close> looks
  the lowered input up as it is, so the dotless form of a supported extension is not
  recognised.
\<close>

theorem get_category_dotless_counterexample:
  "map_of mapping ''.png'' = Some ''Images'' \<and> get_category ''png'' \<noteq> ''Images''"
  by code_simp

text \<open>
  C7, amended: every input yields one of the seven category labels, and the result does
  not depend on the case of the input; every supported extension \<open>e\<close> of the table, written
  with its leading dot, yields its category \<open>c\<close>, and so does \<open>e\<close> in capitals; without the
  leading dot it yields \<open>Others\<close>.
\<close>

theorem get_category_case_insensitive:
  "get_category ext \<in> set all_categories \<and>
   get_category (upper ext) = get_category ext \<and>
   get_category (lower ext) = get_category ext \<and>
   (map_of mapping e = Some c \<longrightarrow>
      get_category e = c \<and> get_category (upper e) = c \<and> get_category (tl e) = ''Others'')"
proof -
  have "get_category e = c" if "map_of mapping e = Some c"
    using that mapping_entry(1) [OF that] by (simp add: get_category_def)
  moreover have up: "get_category (upper x) = get_category x" for x
    by (simp add: get_category_def lower_upper)
  moreover have "get_category (lower x) = get_category x" for x
    by (simp add: get_category_def lower_lower)
  ultimately show ?thesis
    using get_category_in_all mapping_entry(3) by auto
qed

theorem get_category_case_insensitive_witness:
  "get_category ''.Mp3'' \<in> set all_categories \<and>
   get_category (upper ''.Mp3'') = get_category ''.Mp3'' \<and>
   get_category (lower ''.Mp3'') = get_category ''.Mp3'' \<and>
   map_of mapping ''.png'' = Some ''Images'' \<and>
   get_category ''.png'' = ''Images'' \<and> get_category (upper ''.png'') = ''Images'' \<and>
   get_category (tl ''.png'') = ''Others'' \<and> upper ''.png'' = ''.PNG''"
proof -
  have m: "map_of mapping ''.png'' = Some ''Images''" by code_simp
  have u: "upper ''.png'' = ''.PNG''" by code_simp
  show ?thesis
    using get_category_case_insensitive [of "''.Mp3''" "''.png''" "''Images''"] m u by simp
qed

section \<open>Properties of the string functions\<close>

lemma split_on_not_Nil: "split_on sep s \<noteq> []"
  by (induction s) (auto split: list.splits)

lemma split_on_no_sep: "\<forall>c\<in>set s. \<not> sep c \<Longrightarrow> split_on sep s = [s]"
  by (induction s) auto

lemma split_on_append_sep:
  "\<forall>c\<in>set a. \<not> sep c \<Longrightarrow> sep x \<Longrightarrow> split_on sep (a @ x # s) = a # split_on sep s"
  by (induction a) auto

lemma split_on_length:
  "l \<in> set (split_on sep s) \<Longrightarrow> length l + length (filter sep s) \<le> length s"
proof (induction s arbitrary: l)
  case Nil
  then show ?case by simp
next
  case (Cons c s)
  show ?case
  proof (cases "sep c")
    case True
    with Cons.prems have "l = [] \<or> l \<in> set (split_on sep s)" by auto
    with Cons.IH True show ?thesis by fastforce
  next
    case False
    obtain x xs where x: "split_on sep s = x # xs"
      using split_on_not_Nil [of sep s] by (cases "split_on sep s") auto
    with Cons.prems False have "l = c # x \<or> l \<in> set xs" by auto
    then show ?thesis
    proof
      assume "l = c # x"
      moreover have "length x + length (filter sep s) \<le> length s"
        using Cons.IH [of x] x by simp
      ultimately show ?thesis using False by simp
    next
      assume "l \<in> set xs"
      then have "length l + length (filter sep s) \<le> length s"
        using Cons.IH [of l] x by simp
      then show ?thesis using False by simp
    qed
  qed
qed

lemma split_once_append:
  "sep \<notin> set a \<Longrightarrow> split_once sep (a @ sep # b) = [a, b]"
proof -
  assume a: "sep \<notin> set a"
  then have "takeWhile (\<lambda>c. c \<noteq> sep) (a @ sep # b) = a"
    by (induction a) auto
  moreover from a have "dropWhile (\<lambda>c. c \<noteq> sep) (a @ sep # b) = sep # b"
    by (induction a) auto
  ultimately show ?thesis by (simp add: split_once_def)
qed

lemma split_once_two:
  assumes "split_once sep s = [a, b]"
  shows "s = a @ sep # b" and "sep \<notin> set a"
proof -
  from assms have in_s: "sep \<in> set s"
    by (auto simp: split_once_def split: if_splits)
  with assms have a: "a = takeWhile (\<lambda>c. c \<noteq> sep) s"
    and b: "b = tl (dropWhile (\<lambda>c. c \<noteq> sep) s)"
    by (simp_all add: split_once_def)
  from in_s have "dropWhile (\<lambda>c. c \<noteq> sep) s \<noteq> []"
    by (auto simp: dropWhile_eq_Nil_conv)
  moreover from this have "hd (dropWhile (\<lambda>c. c \<noteq> sep) s) = sep"
    using hd_dropWhile [of "\<lambda>c. c \<noteq> sep" s] by simp
  ultimately have "dropWhile (\<lambda>c. c \<noteq> sep) s = sep # b"
    using b by (cases "dropWhile (\<lambda>c. c \<noteq> sep) s") auto
  then show "s = a @ sep # b"
    using a takeWhile_dropWhile_id [of "\<lambda>c. c \<noteq> sep" s] by simp
  show "sep \<notin> set a"
    using a by (auto dest: set_takeWhileD)
qed

lemma length_strip: "length (strip s) \<le> length s"
proof -
  have "length (strip s) \<le> length (dropWhile isspace s)"
    unfolding strip_def using length_dropWhile_le [of isspace "rev (dropWhile isspace s)"]
    by simp
  also have "\<dots> \<le> length s" by (rule length_dropWhile_le)
  finally show ?thesis .
qed

lemma strip_Nil: "strip [] = []"
  by (simp add: strip_def)

lemma strip_id:
  assumes "s \<noteq> []" "\<not> isspace (hd s)" "\<not> isspace (last s)"
  shows "strip s = s"
proof -
  from assms have "dropWhile isspace s = s" by (cases s) auto
  moreover from assms have "dropWhile isspace (rev s) = rev s"
    by (cases "rev s") (auto simp: last_rev [symmetric] hd_rev)
  ultimately show ?thesis by (simp add: strip_def)
qed

lemma strip_changes:
  assumes "s \<noteq> []" "isspace (last s)"
  shows "strip s \<noteq> s"
proof
  assume eq: "strip s = s"
  show False
  proof (cases "strip s = []")
    case True
    with eq assms show ?thesis by simp
  next
    case False
    then have ne: "dropWhile isspace (rev (dropWhile isspace s)) \<noteq> []"
      by (simp add: strip_def)
    then have "\<not> isspace (hd (dropWhile isspace (rev (dropWhile isspace s))))"
      by (rule hd_dropWhile)
    with ne have "\<not> isspace (last (strip s))"
      by (simp add: strip_def last_rev)
    with eq assms show ?thesis by simp
  qed
qed

lemma str_path_not_Nil: "str_path p \<noteq> []"
  by (cases p) (simp_all add: str_path_def)

lemma hd_str_path: "hd (str_path p) = CHR ''/''"
  by (cases p) (simp_all add: str_path_def)

lemma not_isspace_slash: "\<not> isspace (CHR ''/'')"
  by (simp add: isspace_def whitespace_def)

lemma file_lines_one:
  assumes "\<forall>c\<in>set s. c \<noteq> CHR 0x0A \<and> c \<noteq> CHR 0x0D"
  shows "file_lines (s @ CHR 0x0A # rest) = s # file_lines rest"
  unfolding file_lines_def using assms by (intro split_on_append_sep) auto

lemma file_lines_Nil: "file_lines [] = [[]]"
  by (simp add: file_lines_def)

lemma ledger_records_Cons:
  assumes "\<forall>c\<in>set s. c \<noteq> CHR 0x0A \<and> c \<noteq> CHR 0x0D"
    and "s \<noteq> []" "\<not> isspace (hd s)" "\<not> isspace (last s)"
  shows "ledger_records (s @ CHR 0x0A # rest) = split_once (CHR ''|'') s # ledger_records rest"
  using assms by (simp add: ledger_records_def file_lines_one strip_id)

lemma ledger_records_Nil: "ledger_records [] = []"
  by (simp add: ledger_records_def file_lines_Nil strip_Nil)

text \<open>The two strings of a record, read back from the line written for it.\<close>

lemma ledger_line_exact:
  assumes A: "a \<noteq> []" "\<not> isspace (hd a)" and B: "b \<noteq> []"
  shows "ledger_records (a @ ''|'' @ b @ [CHR 0x0A]) = [[a, b]] \<longleftrightarrow>
     CHR ''|'' \<notin> set a \<and> (\<forall>c\<in>set (a @ b). c \<noteq> CHR 0x0A \<and> c \<noteq> CHR 0x0D) \<and>
     \<not> isspace (last b)"
    (is "?lhs \<longleftrightarrow> ?rhs")
proof
  let ?s = "a @ ''|'' @ b"
  let ?L = "?s @ [CHR 0x0A]"
  let ?brk = "\<lambda>c. c = CHR 0x0A \<or> c = CHR 0x0D"
  assume rhs: ?rhs
  then have nobrk: "\<forall>c\<in>set ?s. c \<noteq> CHR 0x0A \<and> c \<noteq> CHR 0x0D" by auto
  from A B rhs have "?s \<noteq> []" "\<not> isspace (hd ?s)" "\<not> isspace (last ?s)" by auto
  with nobrk have "ledger_records (?s @ CHR 0x0A # []) = split_once (CHR ''|'') ?s # ledger_records []"
    by (rule ledger_records_Cons)
  moreover from rhs have "split_once (CHR ''|'') ?s = [a, b]"
    using split_once_append [of "CHR ''|''" a b] by simp
  ultimately show ?lhs by (simp add: ledger_records_Nil)
next
  let ?s = "a @ ''|'' @ b"
  let ?L = "?s @ [CHR 0x0A]"
  let ?brk = "\<lambda>c. c = CHR 0x0A \<or> c = CHR 0x0D"
  assume lhs: ?lhs
  then obtain l where l: "filter (\<lambda>line. line \<noteq> []) (map strip (file_lines ?L)) = [l]"
    and sp: "split_once (CHR ''|'') l = [a, b]"
    by (auto simp: ledger_records_def map_eq_Cons_conv)
  from sp have l_eq: "l = ?s" and noD: "CHR ''|'' \<notin> set a"
    using split_once_two [OF sp] by simp_all
  from l have "l \<in> set (filter (\<lambda>line. line \<noteq> []) (map strip (file_lines ?L)))" by simp
  then obtain s where s: "s \<in> set (file_lines ?L)" and ls: "l = strip s" by auto
  from s have "length s + length (filter ?brk ?L) \<le> length ?L"
    unfolding file_lines_def by (rule split_on_length)
  then have 1: "length s + (length (filter ?brk a) + length (filter ?brk b) + 1)
      \<le> length a + length b + 2"
    by simp
  have "length l \<le> length s" using ls length_strip by simp
  with l_eq have 2: "length a + length b + 1 \<le> length s" by simp
  from 1 2 have "length (filter ?brk a) + length (filter ?brk b) = 0" by linarith
  then have "filter ?brk a = [] \<and> filter ?brk b = []" by simp
  then have nobrk: "\<forall>c\<in>set ?s. c \<noteq> CHR 0x0A \<and> c \<noteq> CHR 0x0D"
    by (auto simp: filter_empty_conv)
  then have fl: "file_lines ?L = [?s, []]"
    using file_lines_one [of ?s "[]"] by (simp add: file_lines_Nil)
  have "strip ?s = ?s"
  proof (cases "strip ?s = []")
    case True
    with l fl show ?thesis by (simp add: strip_Nil)
  next
    case False
    with l fl have "l = strip ?s" by (simp add: strip_Nil)
    with l_eq show ?thesis by simp
  qed
  then have "\<not> isspace (last ?s)"
    using strip_changes [of ?s] by auto
  with B have "\<not> isspace (last b)" by simp
  with noD nobrk show ?rhs by auto
qed

text \<open>
  C10, as stated, fails: \<open>undo\<close> strips the line before it splits it, so an original path
  that ends in a space is not recovered although the destination holds no \<open>|\<close>.
\<close>

theorem ledger_line_round_trip_counterexample:
  "CHR ''|'' \<notin> set (str_path [''d'', ''Others'', ''a '']) \<and>
   ledger_records (ledger_line ([''d'', ''Others'', ''a ''], [''d'', ''a ''])) \<noteq>
     [[str_path [''d'', ''Others'', ''a ''], str_path [''d'', ''a '']]]"
  by code_simp

text \<open>
  C10, amended: the line written for a move record (destination, original), read back as
  \<open>undo\<close> reads it (split into lines, stripped, split once at the first \<open>|\<close>), gives the
  pair back exactly if and only if the destination holds no \<open>|\<close>, neither path holds a
  line break, and the original does not end in a whitespace character; a \<open>|\<close> in the
  original does no harm.
\<close>

theorem ledger_line_round_trip:
  "ledger_records (ledger_line (new_path, old_path)) = [[str_path new_path, str_path old_path]] \<longleftrightarrow>
     CHR ''|'' \<notin> set (str_path new_path) \<and>
     (\<forall>c\<in>set (str_path new_path @ str_path old_path). c \<noteq> CHR 0x0A \<and> c \<noteq> CHR 0x0D) \<and>
     \<not> isspace (last (str_path old_path))"
proof -
  have "\<not> isspace (hd (str_path new_path))"
    by (simp add: hd_str_path not_isspace_slash)
  then show ?thesis
    using ledger_line_exact [of "str_path new_path" "str_path old_path"]
    by (simp add: ledger_line_def str_path_not_Nil)
qed

theorem ledger_line_round_trip_witness:
  "ledger_records (ledger_line ([''d'', ''Documents'', ''a.txt''], [''d'', ''a|b.txt''])) =
     [[str_path [''d'', ''Documents'', ''a.txt''], str_path [''d'', ''a|b.txt'']]] \<and>
   CHR ''|'' \<in> set (str_path [''d'', ''a|b.txt''])"
proof -
  have "CHR ''|'' \<notin> set (str_path [''d'', ''Documents'', ''a.txt'']) \<and>
     (\<forall>c\<in>set (str_path [''d'', ''Documents'', ''a.txt''] @ str_path [''d'', ''a|b.txt'']).
        c \<noteq> CHR 0x0A \<and> c \<noteq> CHR 0x0D) \<and>
     \<not> isspace (last (str_path [''d'', ''a|b.txt'']))"
    by code_simp
  moreover have "CHR ''|'' \<in> set (str_path [''d'', ''a|b.txt''])"
    by code_simp
  ultimately show ?thesis
    using ledger_line_round_trip [of "[''d'', ''Documents'', ''a.txt'']" "[''d'', ''a|b.txt'']"]
    by blast
qed

text \<open>Paths and their strings.\<close>

lemma split_on_joined:
  assumes "\<forall>c\<in>set (x # p). CHR ''/'' \<notin> set c"
  shows "split_on (\<lambda>c. c = CHR ''/'') (x @ concat (map (\<lambda>c. CHR ''/'' # c) p)) = x # p"
  using assms
proof (induction p arbitrary: x)
  case Nil
  then have "\<forall>c\<in>set x. \<not> c = CHR ''/''" by auto
  then have "split_on (\<lambda>c. c = CHR ''/'') x = [x]" by (rule split_on_no_sep)
  then show ?case by simp
next
  case (Cons y p)
  have "split_on (\<lambda>c. c = CHR ''/'') (x @ CHR ''/'' # (y @ concat (map (\<lambda>c. CHR ''/'' # c) p)))
      = x # split_on (\<lambda>c. c = CHR ''/'') (y @ concat (map (\<lambda>c. CHR ''/'' # c) p))"
    using Cons.prems by (intro split_on_append_sep) auto
  also have "\<dots> = x # y # p"
    using Cons.IH [of y] Cons.prems by simp
  finally show ?case by simp
qed

lemma Path_str_path:
  assumes "\<forall>c\<in>set p. valid_name c"
  shows "Path cwd' (str_path p) = p"
proof (cases p)
  case Nil
  then show ?thesis by (simp add: Path_def str_path_def)
next
  case (Cons x q)
  from assms have sl: "\<forall>c\<in>set ([] # p). CHR ''/'' \<notin> set c"
    by (auto simp: valid_name_def)
  have "split_on (\<lambda>c. c = CHR ''/'') ([] @ concat (map (\<lambda>c. CHR ''/'' # c) p)) = [] # p"
    using sl by (rule split_on_joined)
  moreover have "filter (\<lambda>c. c \<noteq> [] \<and> c \<noteq> ''.'') p = p"
    using assms by (auto simp: valid_name_def filter_id_conv)
  ultimately show ?thesis
    using Cons by (simp add: Path_def str_path_def)
qed

lemma in_str_path:
  "x \<in> set (str_path p) \<longleftrightarrow> x = CHR ''/'' \<or> (\<exists>c\<in>set p. x \<in> set c)"
  by (cases p) (auto simp: str_path_def)

lemma last_str_path:
  "p \<noteq> [] \<Longrightarrow> last p \<noteq> [] \<Longrightarrow> last (str_path p) = last (last p)"
proof (induction p)
  case Nil
  then show ?case by simp
next
  case (Cons x p)
  show ?case
  proof (cases "p = []")
    case True
    with Cons.prems show ?thesis by (simp add: str_path_def)
  next
    case False
    with Cons have "last (str_path p) = last (last p)" by simp
    moreover have "str_path (x # p) = (CHR ''/'' # x) @ str_path p"
      using False by (simp add: str_path_def)
    ultimately show ?thesis
      using False by (simp add: str_path_not_Nil)
  qed
qed

section \<open>Properties of the file system operations\<close>

lemma lookup_root [simp]: "lookup w [] = Some Dir"
  by (simp add: lookup_def)

lemma lookup_print [simp]: "lookup (print m w) p = lookup w p"
  by (simp add: lookup_def print_def)

lemma datetime_now_fields [simp]:
  "fs (snd (datetime_now w)) = fs w" "cwd (snd (datetime_now w)) = cwd w"
  "denied (snd (datetime_now w)) = denied w" "out (snd (datetime_now w)) = out w"
  by (simp_all add: datetime_now_def split: list.splits)

lemma lookup_datetime_now [simp]: "lookup (snd (datetime_now w)) p = lookup w p"
  by (simp add: lookup_def)

lemma print_fields [simp]:
  "fs (print m w) = fs w" "cwd (print m w) = cwd w" "denied (print m w) = denied w"
  "out (print m w) = out w @ [m]"
  by (simp_all add: print_def)

lemma lookup_update:
  "p \<noteq> [] \<Longrightarrow> lookup (w\<lparr>fs := AList.update p n (fs w)\<rparr>) q = (if q = p then Some n else lookup w q)"
  by (simp add: lookup_def update_conv')

lemma lookup_delete:
  "p \<noteq> [] \<Longrightarrow> lookup (w\<lparr>fs := AList.delete p (fs w)\<rparr>) q = (if q = p then None else lookup w q)"
  by (simp add: lookup_def delete_conv')

lemma lookup_update_delete:
  "p \<noteq> [] \<Longrightarrow> s \<noteq> [] \<Longrightarrow>
   lookup (w\<lparr>fs := AList.update p n (AList.delete s (fs w))\<rparr>) q =
     (if q = p then Some n else if q = s then None else lookup w q)"
  by (simp add: lookup_def update_conv' delete_conv')

lemma exists_iff: "exists w p \<longleftrightarrow> lookup w p \<noteq> None"
  by (simp add: exists_def)

lemma is_file_iff: "is_file w p \<longleftrightarrow> (\<exists>c. lookup w p = Some (File c))"
  by (auto simp: is_file_def split: option.splits node.splits)

lemma is_dir_iff: "is_dir w p \<longleftrightarrow> lookup w p = Some Dir"
  by (simp add: is_dir_def)

lemma is_file_not_root: "is_file w p \<Longrightarrow> p \<noteq> []"
  by (auto simp: is_file_iff)

lemma not_exists_not_root: "\<not> exists w p \<Longrightarrow> p \<noteq> []"
  by (auto simp: exists_iff)

lemma set_children:
  "set (children w d) = {k. k \<noteq> [] \<and> parent k = d \<and> lookup w k \<noteq> None}"
proof -
  have "set (children w d) = {k \<in> fst ` set (fs w). k \<noteq> [] \<and> parent k = d}"
    by (force simp: children_def)
  moreover have "lookup w k \<noteq> None \<longleftrightarrow> k \<in> fst ` set (fs w)" if "k \<noteq> []" for k
    using that by (simp add: lookup_def map_of_eq_None_iff)
  ultimately show ?thesis by blast
qed

lemma children_Nil_iff:
  "children w d = [] \<longleftrightarrow> (\<forall>k. k \<noteq> [] \<and> parent k = d \<longrightarrow> lookup w k = None)"
proof -
  have "children w d = [] \<longleftrightarrow> set (children w d) = {}" by simp
  also have "\<dots> \<longleftrightarrow> (\<forall>k. k \<noteq> [] \<and> parent k = d \<longrightarrow> lookup w k = None)"
    unfolding set_children by auto
  finally show ?thesis .
qed

text \<open>What each operation does to the tree, where it succeeds.\<close>

lemma mkdir_Inr:
  assumes "mkdir p w = Inr w'"
  shows "lookup w' q = (if q = p then Some Dir else lookup w q)"
    and "cwd w' = cwd w" and "denied w' = denied w" and "out w' = out w"
proof -
  show "lookup w' q = (if q = p then Some Dir else lookup w q)"
  proof (cases "lookup w p")
    case None
    then have "p \<noteq> []" by auto
    with assms None show ?thesis
      by (auto simp: mkdir_def lookup_update split: if_splits)
  next
    case (Some n)
    with assms show ?thesis
      by (cases n) (auto simp: mkdir_def)
  qed
  show "cwd w' = cwd w" "denied w' = denied w" "out w' = out w"
    using assms by (auto simp: mkdir_def split: option.splits node.splits if_splits)
qed

lemma mkdir_Inl: "mkdir p w = Inl (e, w') \<Longrightarrow> w' = w"
  by (auto simp: mkdir_def split: option.splits node.splits if_splits)

lemma mkdir_existing: "is_dir w p \<Longrightarrow> mkdir p w = Inr w"
  by (simp add: mkdir_def is_dir_iff)

lemma mkdir_new:
  "\<not> exists w p \<Longrightarrow> is_dir w (parent p) \<Longrightarrow> \<exists>w'. mkdir p w = Inr w'"
  by (simp add: mkdir_def exists_iff)

lemma mkdir_file: "is_file w p \<Longrightarrow> mkdir p w = Inl (FileExistsError, w)"
  by (auto simp: mkdir_def is_file_iff)

lemma write_text_Inr:
  assumes "write_text p content w = Inr w'"
  shows "lookup w' q = (if q = p then Some (File content) else lookup w q)"
    and "cwd w' = cwd w" and "denied w' = denied w" and "out w' = out w"
proof -
  from assms have "lookup w p \<noteq> Some Dir"
    by (auto simp: write_text_def)
  then have ne: "p \<noteq> []" by auto
  from assms have w': "w' = w\<lparr>fs := AList.update p (File content) (fs w)\<rparr>"
    by (auto simp: write_text_def split: option.splits node.splits if_splits)
  show "lookup w' q = (if q = p then Some (File content) else lookup w q)"
    unfolding w' using ne by (simp add: lookup_update)
  show "cwd w' = cwd w" "denied w' = denied w" "out w' = out w"
    unfolding w' by simp_all
qed

lemma write_text_Inl: "write_text p content w = Inl (e, w') \<Longrightarrow> w' = w"
  by (auto simp: write_text_def split: option.splits node.splits if_splits)

lemma write_text_ok:
  "\<not> is_dir w p \<Longrightarrow> is_dir w (parent p) \<Longrightarrow> \<exists>w'. write_text p content w = Inr w'"
  by (auto simp: write_text_def is_dir_iff split: option.splits node.splits)

lemma write_text_new:
  "\<not> exists w p \<Longrightarrow> is_dir w (parent p) \<Longrightarrow>
   write_text p content w = Inr (w\<lparr>fs := AList.update p (File content) (fs w)\<rparr>)"
  by (simp add: write_text_def exists_iff)

text \<open>
  Moving a regular file to a path that does not exist, in a directory that does: the file
  is renamed, unless the operating system refuses; then a copy is made and the run ends
  with the error of the unlinking.
\<close>

lemma shutil_move_file:
  assumes "lookup w src = Some (File c)" "\<not> exists w dst" "is_dir w (parent dst)"
  shows "shutil_move src dst w =
     (if src \<in> set (denied w)
      then Inl (PermissionError, w\<lparr>fs := AList.update dst (File c) (fs w)\<rparr>)
      else Inr (w\<lparr>fs := AList.update dst (File c) (AList.delete src (fs w))\<rparr>))"
proof -
  from assms have ne: "src \<noteq> []" "dst \<noteq> []" "src \<noteq> dst"
    by (auto simp: exists_iff)
  from assms(2) have nd: "\<not> is_dir w dst" by (simp add: exists_iff is_dir_iff)
  from assms(1) have ns: "\<not> is_dir w src" by (simp add: is_dir_iff)
  let ?w1 = "w\<lparr>fs := AList.update dst (File c) (fs w)\<rparr>"
  show ?thesis
  proof (cases "src \<in> set (denied w)")
    case False
    with assms ne nd show ?thesis
      by (simp add: shutil_move_def os_rename_def)
  next
    case True
    with assms ne nd have "os_rename src dst w = Inl (PermissionError, w)"
      by (simp add: os_rename_def)
    moreover have "copy2 src dst w = Inr ?w1"
      using assms ne by (simp add: copy2_def write_text_new)
    moreover have "lookup ?w1 src = Some (File c)"
      using assms(1) ne by (simp add: lookup_update)
    then have "unlink src ?w1 = Inl (PermissionError, ?w1)"
      using True by (simp add: unlink_def)
    ultimately show ?thesis
      using True nd ns by (simp add: shutil_move_def)
  qed
qed

lemma shutil_move_file_Inr:
  assumes "shutil_move src dst w = Inr w'" "lookup w src = Some (File c)" "\<not> exists w dst"
    "is_dir w (parent dst)"
  shows "lookup w' q = (if q = dst then Some (File c) else if q = src then None else lookup w q)"
    and "cwd w' = cwd w" and "denied w' = denied w" and "out w' = out w"
    and "src \<notin> set (denied w)"
    and "time w' = time w" and "later w' = later w"
proof -
  from assms have ne: "src \<noteq> []" "dst \<noteq> []" by (auto simp: exists_iff)
  from assms have w': "w' = w\<lparr>fs := AList.update dst (File c) (AList.delete src (fs w))\<rparr>"
    and "src \<notin> set (denied w)"
    by (auto simp: shutil_move_file split: if_splits)
  then show "src \<notin> set (denied w)" by simp
  show "lookup w' q = (if q = dst then Some (File c) else if q = src then None else lookup w q)"
    unfolding w' using ne by (simp add: lookup_update_delete)
  show "cwd w' = cwd w" "denied w' = denied w" "out w' = out w"
    "time w' = time w" "later w' = later w"
    unfolding w' by simp_all
qed

lemma shutil_move_file_Inl:
  assumes "shutil_move src dst w = Inl (e, w')" "lookup w src = Some (File c)" "\<not> exists w dst"
    "is_dir w (parent dst)"
  shows "e = PermissionError" and "src \<in> set (denied w)"
    and "lookup w' q = (if q = dst then Some (File c) else lookup w q)"
    and "cwd w' = cwd w" and "denied w' = denied w" and "out w' = out w"
proof -
  from assms have ne: "dst \<noteq> []" by (auto simp: exists_iff)
  from assms have w': "w' = w\<lparr>fs := AList.update dst (File c) (fs w)\<rparr>"
    and "src \<in> set (denied w)" "e = PermissionError"
    by (auto simp: shutil_move_file split: if_splits)
  then show "e = PermissionError" and "src \<in> set (denied w)" by simp_all
  show "lookup w' q = (if q = dst then Some (File c) else lookup w q)"
    unfolding w' using ne by (simp add: lookup_update)
  show "cwd w' = cwd w" "denied w' = denied w" "out w' = out w"
    unfolding w' by simp_all
qed

lemma rmdir_Inr:
  assumes "rmdir d w = Inr w'"
  shows "lookup w' q = (if q = d then None else lookup w q)"
    and "cwd w' = cwd w" and "denied w' = denied w" and "out w' = out w"
    and "is_dir w d" and "children w d = []"
proof -
  from assms have d: "d \<noteq> []" "is_dir w d" "children w d = []"
    and w': "w' = w\<lparr>fs := AList.delete d (fs w)\<rparr>"
    by (auto simp: rmdir_def split: if_splits)
  then show "is_dir w d" "children w d = []" by simp_all
  show "lookup w' q = (if q = d then None else lookup w q)"
    unfolding w' using d by (simp add: lookup_delete)
  show "cwd w' = cwd w" "denied w' = denied w" "out w' = out w"
    unfolding w' by simp_all
qed

lemma rmdir_empty:
  "is_dir w d \<Longrightarrow> d \<noteq> [] \<Longrightarrow> children w d = [] \<Longrightarrow> \<exists>w'. rmdir d w = Inr w'"
  by (simp add: rmdir_def)

lemma unlink_Inr:
  assumes "unlink p w = Inr w'"
  shows "lookup w' q = (if q = p then None else lookup w q)"
    and "cwd w' = cwd w" and "denied w' = denied w" and "out w' = out w"
proof -
  from assms obtain c where c: "lookup w p = Some (File c)"
    and w': "w' = w\<lparr>fs := AList.delete p (fs w)\<rparr>"
    by (auto simp: unlink_def split: option.splits node.splits if_splits)
  from c have "p \<noteq> []" by auto
  then show "lookup w' q = (if q = p then None else lookup w q)"
    unfolding w' by (simp add: lookup_delete)
  show "cwd w' = cwd w" "denied w' = denied w" "out w' = out w"
    unfolding w' by simp_all
qed

lemma unlink_file: "is_file w p \<Longrightarrow> p \<notin> set (denied w) \<Longrightarrow> \<exists>w'. unlink p w = Inr w'"
  by (auto simp: unlink_def is_file_iff)

lemma read_text_file: "lookup w p = Some (File c) \<Longrightarrow> read_text p w = Inr c"
  by (simp add: read_text_def)

subsection \<open>The log\<close>

lemma is_log_file_iff:
  "is_log_file SOURCE_FOLDER q \<longleftrightarrow>
     (\<exists>n. q = LOG_FOLDER SOURCE_FOLDER @ [n] \<and> take 4 n = ''log_'')"
  by (cases q rule: rev_cases) (auto simp: is_log_file_def parent_def name_def)

lemma is_log_file_length:
  "is_log_file SOURCE_FOLDER q \<Longrightarrow> length q = length SOURCE_FOLDER + 2"
  by (auto simp: is_log_file_iff LOG_FOLDER_def)

lemma not_log_file_category:
  "c \<noteq> ''Sort_Logs'' \<Longrightarrow> \<not> is_log_file SOURCE_FOLDER (SOURCE_FOLDER @ [c, x])"
  by (auto simp: is_log_file_iff LOG_FOLDER_def)

lemma not_log_file_UNDO_FILE: "\<not> is_log_file SOURCE_FOLDER (UNDO_FILE SOURCE_FOLDER)"
  by (auto simp: is_log_file_iff UNDO_FILE_def)

lemma loggable_iff:
  "loggable SOURCE_FOLDER w \<longleftrightarrow> (\<forall>q. is_log_file SOURCE_FOLDER q \<longrightarrow> \<not> is_dir w q)"
proof -
  have "q \<in> set (children w (LOG_FOLDER SOURCE_FOLDER))"
    if "is_log_file SOURCE_FOLDER q" "is_dir w q" for q
    using that unfolding set_children by (auto simp: is_log_file_def is_dir_iff)
  then show ?thesis
    unfolding loggable_def list_all_iff by blast
qed

lemma open_append_Inr:
  assumes "open_append p w = Inr w'"
  shows "lookup w' q = (if q = p \<and> lookup w p = None then Some (File []) else lookup w q)"
    and "cwd w' = cwd w" and "denied w' = denied w" and "out w' = out w"
    and "\<exists>c. lookup w' p = Some (File c)"
    and "lookup w p = None \<Longrightarrow> is_dir w (parent p)"
proof -
  have "(\<forall>q. lookup w' q = (if q = p \<and> lookup w p = None then Some (File []) else lookup w q)) \<and>
      cwd w' = cwd w \<and> denied w' = denied w \<and> out w' = out w \<and>
      (lookup w p = None \<longrightarrow> is_dir w (parent p))"
  proof (cases "lookup w p")
    case None
    then have "p \<noteq> []" by auto
    with assms None show ?thesis
      by (auto simp: open_append_def lookup_update split: if_splits)
  next
    case (Some n)
    with assms show ?thesis by (cases n) (auto simp: open_append_def)
  qed
  then show "lookup w' q = (if q = p \<and> lookup w p = None then Some (File []) else lookup w q)"
    and "cwd w' = cwd w" and "denied w' = denied w" and "out w' = out w"
    and "lookup w p = None \<Longrightarrow> is_dir w (parent p)"
    by simp_all
  show "\<exists>c. lookup w' p = Some (File c)"
  proof (cases "lookup w p")
    case None
    then have "p \<noteq> []" by auto
    with assms None show ?thesis
      by (auto simp: open_append_def lookup_update split: if_splits)
  next
    case (Some n)
    with assms show ?thesis by (cases n) (auto simp: open_append_def)
  qed
qed

lemma open_append_Inl: "open_append p w = Inl (e, w') \<Longrightarrow> w' = w"
  by (auto simp: open_append_def split: option.splits node.splits if_splits)

lemma open_append_ok:
  "\<not> is_dir w p \<Longrightarrow> is_dir w (parent p) \<Longrightarrow> \<exists>w'. open_append p w = Inr w'"
  by (auto simp: open_append_def is_dir_iff split: option.splits node.splits)

lemma write_end_lookup:
  "lookup (write_end p s w) q =
     (case lookup w p of
        Some (File c) \<Rightarrow> if q = p then Some (File (c @ s)) else lookup w q
      | _ \<Rightarrow> lookup w q)"
proof (cases "lookup w p")
  case None
  then show ?thesis by (simp add: write_end_def)
next
  case (Some n)
  show ?thesis
  proof (cases n)
    case Dir
    with Some show ?thesis by (simp add: write_end_def)
  next
    case (File c)
    with Some have "p \<noteq> []" by auto
    with Some File show ?thesis by (simp add: write_end_def lookup_update)
  qed
qed

lemma write_end_fields [simp]:
  "cwd (write_end p s w) = cwd w" "denied (write_end p s w) = denied w"
  "out (write_end p s w) = out w"
  by (simp_all add: write_end_def split: option.splits node.splits)

text \<open>
  A call of \<open>log\<close> that returns has printed the message and has appended a line to a log
  file, which it has created where there was none; nothing else is changed.
\<close>

lemma log_Inr:
  assumes "log SOURCE_FOLDER m w = Inr w'"
  shows "\<not> is_log_file SOURCE_FOLDER q \<Longrightarrow> lookup w' q = lookup w q"
    and "cwd w' = cwd w" and "denied w' = denied w" and "out w' = out w @ [m]"
    and "lookup w' q = lookup w q \<or> (is_log_file SOURCE_FOLDER q \<and> is_file w' q)"
    and "lookup w q = Some (File c) \<Longrightarrow> \<exists>s. lookup w' q = Some (File (c @ s))"
proof -
  obtain t w1 where n1: "datetime_now (print m w) = (t, w1)"
    by (cases "datetime_now (print m w)") auto
  let ?f = "LOG_FOLDER SOURCE_FOLDER @ [''log_'' @ timestamp t @ ''.txt'']"
  from assms n1 obtain w2 where w2: "open_append ?f w1 = Inr w2"
    by (auto simp: log_def Let_def split: sum.splits)
  obtain t' w3 where n2: "datetime_now w2 = (t', w3)" by (cases "datetime_now w2") auto
  from assms n1 w2 n2 have w': "w' = write_end ?f (log_line t' m) w3"
    by (simp add: log_def Let_def)
  from n1 have 1: "w1 = snd (datetime_now (print m w))" by simp
  from n2 have 3: "w3 = snd (datetime_now w2)" by simp
  note o = open_append_Inr [OF w2]
  have f: "is_log_file SOURCE_FOLDER ?f" by (simp add: is_log_file_iff)
  have l1: "lookup w1 p = lookup w p" for p by (simp add: 1)
  have l3: "lookup w3 p = lookup w2 p" for p by (simp add: 3)
  from o(5) obtain c2 where c2: "lookup w2 ?f = Some (File c2)" by blast
  have l': "lookup w' p = (if p = ?f then Some (File (c2 @ log_line t' m)) else lookup w2 p)" for p
    unfolding w' write_end_lookup using c2 l3 by simp
  show "lookup w' q = lookup w q" if "\<not> is_log_file SOURCE_FOLDER q"
  proof -
    from that f have "q \<noteq> ?f" by auto
    then show ?thesis using l' [of q] o(1) [of q] l1 [of q] by simp
  qed
  show "cwd w' = cwd w" "denied w' = denied w" "out w' = out w @ [m]"
    unfolding w' using o(2,3,4) by (simp_all add: 1 3)
  show "lookup w' q = lookup w q \<or> (is_log_file SOURCE_FOLDER q \<and> is_file w' q)"
    using l' [of q] o(1) [of q] l1 [of q] f by (auto simp: is_file_iff)
  show "\<exists>s. lookup w' q = Some (File (c @ s))" if "lookup w q = Some (File c)"
  proof (cases "q = ?f")
    case False
    then show ?thesis using l' [of q] o(1) [of q] l1 [of q] that by simp
  next
    case True
    with that o(1) [of ?f] l1 [of ?f] c2 have "c2 = c" by simp
    with True l' [of q] show ?thesis by simp
  qed
qed

lemma log_Inl:
  assumes "log SOURCE_FOLDER m w = Inl (e, w')"
  shows "lookup w' q = lookup w q" and "cwd w' = cwd w" and "denied w' = denied w"
    and "out w' = out w @ [m]"
proof -
  obtain t w1 where n1: "datetime_now (print m w) = (t, w1)"
    by (cases "datetime_now (print m w)") auto
  let ?f = "LOG_FOLDER SOURCE_FOLDER @ [''log_'' @ timestamp t @ ''.txt'']"
  from assms n1 have "open_append ?f w1 = Inl (e, w')"
    by (auto simp: log_def Let_def split: sum.splits prod.splits)
  then have "w' = w1" by (rule open_append_Inl)
  moreover from n1 have "w1 = snd (datetime_now (print m w))" by simp
  ultimately have w': "w' = snd (datetime_now (print m w))" by simp
  show "lookup w' q = lookup w q" and "cwd w' = cwd w" and "denied w' = denied w"
    and "out w' = out w @ [m]"
    by (simp_all add: w')
qed

lemma log_ok:
  assumes "is_dir w (LOG_FOLDER SOURCE_FOLDER)"
    and "\<forall>q. is_log_file SOURCE_FOLDER q \<longrightarrow> \<not> is_dir w q"
  shows "\<exists>w'. log SOURCE_FOLDER m w = Inr w'"
proof -
  obtain t w1 where n1: "datetime_now (print m w) = (t, w1)"
    by (cases "datetime_now (print m w)") auto
  let ?f = "LOG_FOLDER SOURCE_FOLDER @ [''log_'' @ timestamp t @ ''.txt'']"
  from n1 have 1: "w1 = snd (datetime_now (print m w))" by simp
  have "is_log_file SOURCE_FOLDER ?f" by (simp add: is_log_file_iff)
  with assms(2) have "\<not> is_dir w1 ?f" by (simp add: 1 is_dir_iff)
  moreover have "parent ?f = LOG_FOLDER SOURCE_FOLDER" by (simp add: parent_def)
  with assms(1) have "is_dir w1 (parent ?f)" by (simp add: 1 is_dir_iff)
  ultimately obtain w2 where "open_append ?f w1 = Inr w2"
    using open_append_ok by blast
  with n1 show ?thesis
    by (cases "datetime_now w2") (simp add: log_def Let_def)
qed

section \<open>Properties of organize\<close>

subsection \<open>Collision resolution\<close>

lemma resolve_collision_free:
  "\<not> exists w (resolve_collision w dest_folder stm sfx i dest_path)"
proof (induction w dest_folder stm sfx i dest_path rule: resolve_collision.induct)
  case (1 w dest_folder stm sfx i dest_path)
  then show ?case
    by (subst resolve_collision.simps) simp
qed

lemma resolve_collision_first:
  assumes "exists w dest_path"
  shows "\<exists>N\<ge>i. resolve_collision w dest_folder stm sfx i dest_path =
             dest_folder @ [stm @ ''_'' @ str_nat N @ sfx] \<and>
           (\<forall>j. i \<le> j \<and> j < N \<longrightarrow> exists w (dest_folder @ [stm @ ''_'' @ str_nat j @ sfx]))"
  using assms
proof (induction w dest_folder stm sfx i dest_path rule: resolve_collision.induct)
  case (1 w dest_folder stm sfx i dest_path)
  let ?cand = "\<lambda>j. dest_folder @ [stm @ ''_'' @ str_nat j @ sfx]"
  from "1.prems" have step: "resolve_collision w dest_folder stm sfx i dest_path =
      resolve_collision w dest_folder stm sfx (i + 1) (?cand i)"
    by (subst resolve_collision.simps) simp
  show ?case
  proof (cases "exists w (?cand i)")
    case False
    then have "resolve_collision w dest_folder stm sfx (i + 1) (?cand i) = ?cand i"
      by (subst resolve_collision.simps) simp
    with step show ?thesis by (intro exI [of _ i]) auto
  next
    case True
    from "1.IH" [OF "1.prems" True] obtain N where N: "i + 1 \<le> N"
      "resolve_collision w dest_folder stm sfx (i + 1) (?cand i) = ?cand N"
      "\<forall>j. i + 1 \<le> j \<and> j < N \<longrightarrow> exists w (?cand j)"
      by blast
    have "exists w (?cand j)" if "i \<le> j" "j < N" for j
    proof (cases "j = i")
      case True
      with \<open>exists w (?cand i)\<close> show ?thesis by simp
    next
      case False
      with that N(3) show ?thesis by simp
    qed
    with N step show ?thesis by (intro exI [of _ N]) simp
  qed
qed

lemma resolve_collision_cong:
  assumes "\<And>x. exists w (dest_folder @ [x]) = exists w' (dest_folder @ [x])"
    and "exists w dest_path = exists w' dest_path"
  shows "resolve_collision w dest_folder stm sfx i dest_path =
         resolve_collision w' dest_folder stm sfx i dest_path"
  using assms
proof (induction w dest_folder stm sfx i dest_path rule: resolve_collision.induct)
  case (1 w dest_folder stm sfx i dest_path)
  show ?case
  proof (cases "exists w dest_path")
    case True
    with "1.prems" have "exists w' dest_path" by simp
    with True "1.IH" [OF True "1.prems"(1)] "1.prems"(1) show ?thesis
      by (subst resolve_collision.simps, subst (2) resolve_collision.simps) simp
  next
    case False
    with "1.prems" have "\<not> exists w' dest_path" by simp
    with False show ?thesis
      by (subst resolve_collision.simps, subst (2) resolve_collision.simps) simp
  qed
qed

lemma resolve_dest_path_cong:
  assumes "\<And>x. exists w (dest_folder @ [x]) = exists w' (dest_folder @ [x])"
  shows "resolve_dest_path w dest_folder item = resolve_dest_path w' dest_folder item"
  unfolding resolve_dest_path_def Let_def
  using assms resolve_collision_cong [of w dest_folder w' "dest_folder @ [name item]"]
  by simp

lemma resolve_dest_path_free: "\<not> exists w (resolve_dest_path w dest_folder item)"
  by (simp add: resolve_dest_path_def Let_def resolve_collision_free)

lemma resolve_dest_path_parent:
  "\<exists>x. resolve_dest_path w dest_folder item = dest_folder @ [x]"
proof (cases "exists w (dest_folder @ [name item])")
  case True
  from resolve_collision_first [OF True, of 1 dest_folder "stem item" "suffix item"]
  show ?thesis using True by (auto simp: resolve_dest_path_def)
next
  case False
  then show ?thesis by (simp add: resolve_dest_path_def)
qed

lemma resolve_dest_path_shape:
  "\<exists>x. resolve_dest_path w dest_folder item = dest_folder @ [x] \<and> renamed item x"
proof (cases "exists w (dest_folder @ [name item])")
  case True
  from resolve_collision_first [OF True, of 1 dest_folder "stem item" "suffix item"]
  show ?thesis using True by (auto simp: resolve_dest_path_def renamed_def)
next
  case False
  then show ?thesis by (simp add: resolve_dest_path_def renamed_def)
qed

subsection \<open>One step of the loop\<close>

lemma organize_item_skip:
  "\<not> (is_file w item \<and> name item \<noteq> ''organizer.py'') \<Longrightarrow>
   organize_item SOURCE_FOLDER item (w, ms, cc) = Inr (w, ms, cc)"
  by (auto simp: organize_item_def)

lemma category_not_Sort_Logs: "get_category ext \<noteq> ''Sort_Logs''"
  using get_category_in_all [of ext] by (auto simp: all_categories_def)

lemma category_not_organizer: "get_category ext \<noteq> ''organizer.py''"
  using get_category_in_all [of ext] by (auto simp: all_categories_def)

lemma category_neq_Sort_Logs: "c \<in> set all_categories \<Longrightarrow> c \<noteq> ''Sort_Logs''"
  by (auto simp: all_categories_def)

lemma category_of_in_all: "category_of p \<in> set all_categories"
  by (simp add: category_of_def get_category_in_all)

lemma not_log_file_destination:
  "\<not> is_log_file SOURCE_FOLDER (SOURCE_FOLDER @ [get_category ext, x])"
  using category_not_Sort_Logs by (rule not_log_file_category)

lemma organize_item_Inr:
  assumes run: "organize_item SOURCE_FOLDER item (w, ms, cc) = Inr (w', ms', cc')"
    and item: "is_file w item" "name item \<noteq> ''organizer.py''"
  defines "dest_folder \<equiv> SOURCE_FOLDER @ [get_category (suffix item)]"
  defines "d \<equiv> resolve_dest_path w dest_folder item"
  shows "ms' = ms @ [(d, item)]"
    and "cc' = increment (get_category (suffix item)) cc"
    and "out w' = out w @ [Moved (name item) (get_category (suffix item))]"
    and "cwd w' = cwd w" and "denied w' = denied w"
    and "\<not> exists w d" and "\<not> is_file w dest_folder" and "item \<notin> set (denied w)"
    and "\<not> is_log_file SOURCE_FOLDER q \<Longrightarrow> lookup w' q =
       (if q = d then lookup w item else if q = item then None
        else if q = dest_folder then Some Dir else lookup w q)"
    and "is_log_file SOURCE_FOLDER q \<Longrightarrow> q \<noteq> item \<Longrightarrow>
       lookup w' q = lookup w q \<or> is_file w' q"
    and "lookup w q = Some (File c') \<Longrightarrow> q \<noteq> item \<Longrightarrow>
       \<exists>s. lookup w' q = Some (File (c' @ s))"
proof -
  from item obtain c where c: "lookup w item = Some (File c)"
    by (auto simp: is_file_iff)
  from run item obtain w1 where w1: "mkdir dest_folder w = Inr w1"
    by (auto simp: organize_item_def Let_def dest_folder_def split: sum.splits)
  note m = mkdir_Inr [OF w1]
  from w1 show nf: "\<not> is_file w dest_folder"
    by (auto simp: mkdir_file)
  with item have ne: "item \<noteq> dest_folder" by auto
  have ex: "exists w1 (dest_folder @ [x]) = exists w (dest_folder @ [x])" for x
    by (simp add: exists_iff m(1))
  then have d1: "resolve_dest_path w1 dest_folder item = d"
    unfolding d_def by (intro resolve_dest_path_cong) simp
  from run item w1 d1 obtain w2 where w2: "shutil_move item d w1 = Inr w2"
    and lg: "log SOURCE_FOLDER (Moved (name item) (get_category (suffix item))) w2 = Inr w'"
    and res: "ms' = ms @ [(d, item)]" "cc' = increment (get_category (suffix item)) cc"
    by (auto simp: organize_item_def Let_def dest_folder_def split: sum.splits)
  from res show "ms' = ms @ [(d, item)]"
    "cc' = increment (get_category (suffix item)) cc" by simp_all
  obtain x where x: "d = dest_folder @ [x]"
    unfolding d_def using resolve_dest_path_parent by blast
  have free1: "\<not> exists w1 d"
    using resolve_dest_path_free [of w1 dest_folder item] d1 by simp
  then show free: "\<not> exists w d" using ex x by simp
  from c ne have c1: "lookup w1 item = Some (File c)" by (simp add: m(1))
  have "parent d = butlast (dest_folder @ [x])" unfolding x by (simp only: parent_def)
  then have "parent d = dest_folder" by (simp only: butlast_snoc)
  then have pd: "is_dir w1 (parent d)" using m(1) [of dest_folder] by (simp add: is_dir_iff)
  note s = shutil_move_file_Inr [OF w2 c1 free1 pd]
  note l = log_Inr [OF lg]
  from s(5) show "item \<notin> set (denied w)" by (simp add: m)
  from l(2,3,4) s m show "out w' = out w @ [Moved (name item) (get_category (suffix item))]"
    "cwd w' = cwd w" "denied w' = denied w" by simp_all
  have l2: "lookup w2 q = (if q = d then lookup w item else if q = item then None
        else if q = dest_folder then Some Dir else lookup w q)" for q
    using s(1) [of q] m(1) [of q] c by simp
  show "lookup w' q =
       (if q = d then lookup w item else if q = item then None
        else if q = dest_folder then Some Dir else lookup w q)"
    if "\<not> is_log_file SOURCE_FOLDER q"
    using l(1) [OF that] l2 [of q] by simp
  have nl: "\<not> is_log_file SOURCE_FOLDER d" "\<not> is_log_file SOURCE_FOLDER dest_folder"
    unfolding x dest_folder_def
    using not_log_file_destination [of SOURCE_FOLDER "suffix item" x]
      is_log_file_length [of SOURCE_FOLDER "SOURCE_FOLDER @ [get_category (suffix item)]"]
    by auto
  show "lookup w' q = lookup w q \<or> is_file w' q"
    if "is_log_file SOURCE_FOLDER q" "q \<noteq> item"
  proof -
    from that nl have "q \<noteq> d" "q \<noteq> dest_folder" by auto
    with that(2) have "lookup w2 q = lookup w q" using l2 [of q] by simp
    with l(5) [of q] show ?thesis by auto
  qed
  show "\<exists>s. lookup w' q = Some (File (c' @ s))"
    if q: "lookup w q = Some (File c')" "q \<noteq> item"
  proof -
    from q(1) free have "q \<noteq> d" by (auto simp: exists_iff)
    moreover from q(1) nf have "q \<noteq> dest_folder" by (auto simp: is_file_iff)
    ultimately have "lookup w2 q = Some (File c')" using l2 [of q] q by simp
    then show ?thesis by (rule l(6))
  qed
qed



text \<open>A file that the operating system refuses to take out of the folder.\<close>

lemma organize_item_refused:
  assumes "lookup w item = Some (File c)" "name item \<noteq> ''organizer.py''"
    and "\<not> is_file w (SOURCE_FOLDER @ [get_category (suffix item)])"
    and "is_dir w SOURCE_FOLDER" and "item \<in> set (denied w)"
  defines "dest_folder \<equiv> SOURCE_FOLDER @ [get_category (suffix item)]"
  defines "d \<equiv> resolve_dest_path w dest_folder item"
  shows "\<exists>w'. organize_item SOURCE_FOLDER item (w, ms, cc) = Inl (PermissionError, w') \<and>
     (\<forall>q. lookup w' q = (if q = d then Some (File c) else if q = dest_folder then Some Dir
                        else lookup w q)) \<and>
     cwd w' = cwd w \<and> denied w' = denied w \<and> out w' = out w"
    and "\<not> exists w d"
proof -
  have "\<exists>w1. mkdir dest_folder w = Inr w1"
  proof (cases "exists w dest_folder")
    case True
    with assms(3) have "is_dir w dest_folder" unfolding dest_folder_def
      by (cases "lookup w (SOURCE_FOLDER @ [get_category (suffix item)])")
        (auto simp: exists_iff is_dir_iff is_file_iff intro: node.exhaust)
    then show ?thesis by (simp add: mkdir_existing)
  next
    case False
    then show ?thesis using assms(4)
      by (intro mkdir_new) (simp_all add: parent_def dest_folder_def)
  qed
  then obtain w1 where w1: "mkdir dest_folder w = Inr w1" by blast
  note m = mkdir_Inr [OF w1]
  have ex: "exists w1 (dest_folder @ [x]) = exists w (dest_folder @ [x])" for x
    by (simp add: exists_iff m(1))
  then have d1: "resolve_dest_path w1 dest_folder item = d"
    unfolding d_def by (intro resolve_dest_path_cong) simp
  obtain x where x: "d = dest_folder @ [x]"
    unfolding d_def using resolve_dest_path_parent by blast
  have free1: "\<not> exists w1 d"
    using resolve_dest_path_free [of w1 dest_folder item] d1 by simp
  then show free: "\<not> exists w d" using ex x by simp
  from assms(1,3) have "item \<noteq> dest_folder" by (auto simp: dest_folder_def is_file_iff)
  then have c1: "lookup w1 item = Some (File c)" using m(1) [of item] assms(1) by simp
  have "parent d = butlast (dest_folder @ [x])" unfolding x by (simp only: parent_def)
  then have "parent d = dest_folder" by (simp only: butlast_snoc)
  then have pd: "is_dir w1 (parent d)" using m(1) [of dest_folder] by (simp add: is_dir_iff)
  from assms(5) have dn: "item \<in> set (denied w1)" by (simp add: m)
  let ?w2 = "w1\<lparr>fs := AList.update d (File c) (fs w1)\<rparr>"
  have mv: "shutil_move item d w1 = Inl (PermissionError, ?w2)"
    using dn by (simp add: shutil_move_file [OF c1 free1 pd])
  have "d \<noteq> []" by (simp add: x)
  then have "lookup ?w2 q = (if q = d then Some (File c) else if q = dest_folder then Some Dir
      else lookup w q)" for q
    using m(1) [of q] by (simp add: lookup_update)
  moreover have "organize_item SOURCE_FOLDER item (w, ms, cc) = Inl (PermissionError, ?w2)"
    using assms(1,2) w1 d1 mv
    by (simp add: organize_item_def Let_def is_file_iff dest_folder_def [symmetric])
  ultimately show "\<exists>w'. organize_item SOURCE_FOLDER item (w, ms, cc) = Inl (PermissionError, w') \<and>
     (\<forall>q. lookup w' q = (if q = d then Some (File c) else if q = dest_folder then Some Dir
                        else lookup w q)) \<and>
     cwd w' = cwd w \<and> denied w' = denied w \<and> out w' = out w"
    using m(2,3,4) by (intro exI [of _ ?w2]) simp
qed

subsection \<open>The report and the counts\<close>

lemma sum_update:
  "sum_list (map snd (AList.update k v cc)) + count_of cc k = sum_list (map snd cc) + v"
  by (induction cc) (auto simp: count_of_def)

lemma sum_increment: "sum_list (map snd (increment c cc)) = sum_list (map snd cc) + 1"
  using sum_update [of c "count_of cc c + 1" cc] by (simp add: increment_def)

lemma sum_touch: "sum_list (map snd (touch c cc)) = sum_list (map snd cc)"
  using sum_update [of c "count_of cc c" cc] by (simp add: touch_def)

lemma report_empty_Inr:
  assumes "report_empty SOURCE_FOLDER cats (cc, w) = Inr (cc', w')"
  shows "\<not> is_log_file SOURCE_FOLDER q \<Longrightarrow> lookup w' q = lookup w q"
    and "cwd w' = cwd w" and "denied w' = denied w"
    and "\<exists>msgs. out w' = out w @ msgs"
    and "sum_list (map snd cc') = sum_list (map snd cc)"
    and "lookup w' q = lookup w q \<or> (is_log_file SOURCE_FOLDER q \<and> is_file w' q)"
proof -
  have "(\<forall>q. lookup w' q = lookup w q \<or> (is_log_file SOURCE_FOLDER q \<and> is_file w' q)) \<and>
      cwd w' = cwd w \<and> denied w' = denied w \<and>
      (\<exists>msgs. out w' = out w @ msgs) \<and> sum_list (map snd cc') = sum_list (map snd cc)"
    using assms
  proof (induction cats arbitrary: cc w)
    case Nil
    then show ?case by simp
  next
    case (Cons cat cats)
    show ?case
    proof (cases "count_of cc cat = 0")
      case False
      with Cons.prems have "report_empty SOURCE_FOLDER cats (touch cat cc, w) = Inr (cc', w')"
        by simp
      from Cons.IH [OF this] show ?thesis by (simp add: sum_touch)
    next
      case True
      with Cons.prems obtain w1 where
        lg: "log SOURCE_FOLDER (NoFiles (lower cat)) w = Inr w1"
        and rest: "report_empty SOURCE_FOLDER cats (touch cat cc, w1) = Inr (cc', w')"
        by (auto split: sum.splits)
      note l = log_Inr [OF lg]
      note r = Cons.IH [OF rest]
      have "lookup w' q = lookup w q \<or> (is_log_file SOURCE_FOLDER q \<and> is_file w' q)" for q
      proof (cases "lookup w' q = lookup w1 q")
        case True
        with l(5) [of q] show ?thesis by (auto simp: is_file_iff)
      next
        case False
        with r show ?thesis by blast
      qed
      moreover from r l(4) have "\<exists>msgs. out w' = out w @ msgs" by auto
      ultimately show ?thesis using r l(2,3) by (simp add: sum_touch)
    qed
  qed
  then show "\<not> is_log_file SOURCE_FOLDER q \<Longrightarrow> lookup w' q = lookup w q"
    and "cwd w' = cwd w" and "denied w' = denied w"
    and "\<exists>msgs. out w' = out w @ msgs"
    and "sum_list (map snd cc') = sum_list (map snd cc)"
    and "lookup w' q = lookup w q \<or> (is_log_file SOURCE_FOLDER q \<and> is_file w' q)"
    by auto
qed

lemma report_empty_ok:
  assumes "is_dir w (LOG_FOLDER SOURCE_FOLDER)"
    and "\<forall>q. is_log_file SOURCE_FOLDER q \<longrightarrow> \<not> is_dir w q"
  shows "\<exists>cc' w'. report_empty SOURCE_FOLDER cats (cc, w) = Inr (cc', w')"
  using assms
proof (induction cats arbitrary: cc w)
  case Nil
  then show ?case by simp
next
  case (Cons cat cats)
  show ?case
  proof (cases "count_of cc cat = 0")
    case False
    with Cons.IH [OF Cons.prems, of "touch cat cc"] show ?thesis by simp
  next
    case True
    from log_ok [OF Cons.prems] obtain w1 where
      lg: "log SOURCE_FOLDER (NoFiles (lower cat)) w = Inr w1" by blast
    note l = log_Inr [OF lg]
    have "\<not> is_log_file SOURCE_FOLDER (LOG_FOLDER SOURCE_FOLDER)"
      using is_log_file_length [of SOURCE_FOLDER "LOG_FOLDER SOURCE_FOLDER"]
      by (auto simp: LOG_FOLDER_def)
    from l(1) [OF this] Cons.prems(1) have "is_dir w1 (LOG_FOLDER SOURCE_FOLDER)"
      by (simp add: is_dir_iff)
    moreover have "\<forall>q. is_log_file SOURCE_FOLDER q \<longrightarrow> \<not> is_dir w1 q"
    proof (intro allI impI)
      fix q assume "is_log_file SOURCE_FOLDER q"
      with l(5) [of q] Cons.prems(2) show "\<not> is_dir w1 q"
        by (auto simp: is_dir_iff is_file_iff)
    qed
    ultimately obtain cc' w' where
      "report_empty SOURCE_FOLDER cats (touch cat cc, w1) = Inr (cc', w')"
      using Cons.IH by blast
    with True lg show ?thesis by simp
  qed
qed

lemma children_length: "i \<in> set (children w d) \<Longrightarrow> length i = length d + 1"
  unfolding set_children by (cases i rule: rev_cases) (auto simp: parent_def)

section \<open>Properties of undo\<close>

subsection \<open>One record\<close>

lemma restore_missing: "\<not> exists w new_path \<Longrightarrow> restore new_path old_path (w, n) = Inr (w, n)"
  by (simp add: restore_def)

lemma restore_file:
  assumes "lookup w new_path = Some (File c)" "is_dir w (parent old_path)"
    "\<not> exists w old_path" "new_path \<notin> set (denied w)"
  shows "\<exists>w'. restore new_path old_path (w, n) = Inr (w', n + 1) \<and>
     (\<forall>q. lookup w' q =
        (if q = old_path then Some (File c) else if q = new_path then None else lookup w q)) \<and>
     cwd w' = cwd w \<and> denied w' = denied w \<and> out w' = out w @ [Restored (name old_path)]"
proof -
  let ?w1 = "w\<lparr>fs := AList.update old_path (File c) (AList.delete new_path (fs w))\<rparr>"
  from assms have ne: "new_path \<noteq> []" "old_path \<noteq> []" by (auto simp: exists_iff)
  from assms have "exists w new_path" by (simp add: exists_iff)
  moreover from assms have "mkdir (parent old_path) w = Inr w" by (simp add: mkdir_existing)
  moreover from assms have "shutil_move new_path old_path w = Inr ?w1"
    by (simp add: shutil_move_file)
  ultimately have "restore new_path old_path (w, n) =
      Inr (print (Restored (name old_path)) ?w1, n + 1)"
    by (simp add: restore_def)
  moreover have "lookup ?w1 q =
      (if q = old_path then Some (File c) else if q = new_path then None else lookup w q)" for q
    using ne by (simp add: lookup_update_delete)
  ultimately show ?thesis by simp
qed

text \<open>
  C5 does not hold of the code: a record whose destination exists is not always moved
  back to its recorded original path.  \<open>undo\<close> hands the recorded original path to
  \<open>shutil.move\<close>, which puts the file \<^emph>\<open>inside\<close> that path when it is an existing
  directory.  The folder \<open>/d\<close> of \<open>images_world\<close> holds a file named \<open>Images\<close> and the
  picture \<open>x.png\<close>.  \<open>organize\<close> moves the file to \<open>/d/Others/Images\<close> and creates the
  category folder \<open>/d/Images\<close> for the picture; the undo file holds the record
  \<open>/d/Others/Images|/d/Images\<close>.  The destination of this record exists when \<open>undo\<close>
  runs, but the file ends at \<open>/d/Images/Images\<close>, the path \<open>/d/Images\<close> stays a
  directory, and \<open>undo\<close> prints that it restored \<open>Images\<close> and counts the record among
  the 2 files restored.  This contradicts the description of \<open>undo\<close> in the program
  itself: "Restores all moved files back to their original locations".
\<close>

theorem undo_moves_into_directory:
  "organize [''d''] images_world = Inr images_world_sorted \<and>
   lookup images_world [''d'', ''Images''] = Some (File ''P'') \<and>
   read_text (UNDO_FILE [''d'']) images_world_sorted =
     Inr (ledger_line ([''d'', ''Others'', ''Images''], [''d'', ''Images'']) @
          ledger_line ([''d'', ''Images'', ''x.png''], [''d'', ''x.png''])) \<and>
   exists images_world_sorted [''d'', ''Others'', ''Images''] \<and>
   undo [''d''] images_world_sorted = Inr images_world_undone \<and>
   lookup images_world_undone [''d'', ''Images''] = Some Dir \<and>
   lookup images_world_undone [''d'', ''Images'', ''Images''] = Some (File ''P'') \<and>
   out images_world_undone =
     out images_world_sorted @ [Undoing, Restored ''Images'', Restored ''x.png'', UndoComplete 2]"
proof -
  have "organize [''d''] images_world = Inr images_world_sorted" by code_simp
  moreover have "undo [''d''] images_world_sorted = Inr images_world_undone" by code_simp
  moreover have "lookup images_world [''d'', ''Images''] = Some (File ''P'')"
    "read_text (UNDO_FILE [''d'']) images_world_sorted =
     Inr (ledger_line ([''d'', ''Others'', ''Images''], [''d'', ''Images'']) @
          ledger_line ([''d'', ''Images'', ''x.png''], [''d'', ''x.png'']))"
    "exists images_world_sorted [''d'', ''Others'', ''Images'']"
    "lookup images_world_undone [''d'', ''Images''] = Some Dir"
    "lookup images_world_undone [''d'', ''Images'', ''Images''] = Some (File ''P'')"
    by code_simp+
  moreover have "out images_world_undone =
     out images_world_sorted @ [Undoing, Restored ''Images'', Restored ''x.png'', UndoComplete 2]"
    by (simp add: images_world_undone_def)
  ultimately show ?thesis by (intro conjI)
qed

subsection \<open>No earlier sort\<close>

text \<open>
  C6: when there is no undo file, \<open>undo\<close> returns (it does not raise) after printing that
  there is nothing to undo, and the world is otherwise as before: no entry of the file
  system is changed.
\<close>

theorem undo_without_ledger:
  assumes "\<not> exists w (UNDO_FILE SOURCE_FOLDER)"
  shows "undo SOURCE_FOLDER w = Inr (w\<lparr>out := out w @ [NothingToUndo]\<rparr>)"
  using assms by (simp add: undo_def print_def)

theorem undo_without_ledger_witness:
  "\<not> exists fresh_world (UNDO_FILE [''d'']) \<and>
   undo [''d''] fresh_world = Inr (fresh_world\<lparr>out := [NothingToUndo]\<rparr>) \<and>
   fs (fresh_world\<lparr>out := [NothingToUndo]\<rparr>) = fs fresh_world"
proof -
  have 1: "\<not> exists fresh_world (UNDO_FILE [''d''])" by code_simp
  have 2: "out fresh_world = []" by code_simp
  from undo_without_ledger [OF 1] 1 2 show ?thesis by simp
qed

subsection \<open>Removing the empty category folders\<close>

lemma children_rmdir:
  assumes "rmdir d w = Inr w'" "parent d \<noteq> q"
  shows "children w' q = [] \<longleftrightarrow> children w q = []"
proof -
  have "lookup w' k = lookup w k" if "parent k = q" for k
    using rmdir_Inr(1) [OF assms(1), of k] that assms(2) by auto
  then show ?thesis unfolding children_Nil_iff by auto
qed

lemma remove_empty_folders_effect:
  assumes "\<forall>c\<in>set cs. \<not> is_file w (SOURCE_FOLDER @ [c])"
  shows "\<exists>w'. remove_empty_folders SOURCE_FOLDER cs w = Inr w' \<and>
     (\<forall>q. lookup w' q =
        (if (\<exists>c\<in>set cs. q = SOURCE_FOLDER @ [c]) \<and> is_dir w q \<and> children w q = []
         then None else lookup w q)) \<and>
     cwd w' = cwd w \<and> denied w' = denied w \<and> out w' = out w"
  using assms
proof (induction cs arbitrary: w)
  case Nil
  then show ?case by simp
next
  case (Cons c cs)
  let ?folder = "SOURCE_FOLDER @ [c]"
  from Cons.prems have nf: "\<not> is_file w ?folder"
    and rest: "\<forall>c\<in>set cs. \<not> is_file w (SOURCE_FOLDER @ [c])" by simp_all
  show ?case
  proof (cases "is_dir w ?folder \<and> children w ?folder = []")
    case True
    then obtain w1 where w1: "rmdir ?folder w = Inr w1"
      using rmdir_empty [of w ?folder] by auto
    note r = rmdir_Inr [OF w1]
    have "\<forall>c\<in>set cs. \<not> is_file w1 (SOURCE_FOLDER @ [c])"
      using rest r(1) by (auto simp: is_file_iff)
    from Cons.IH [OF this] obtain w' where w':
      "remove_empty_folders SOURCE_FOLDER cs w1 = Inr w'"
      "\<forall>q. lookup w' q =
        (if (\<exists>c\<in>set cs. q = SOURCE_FOLDER @ [c]) \<and> is_dir w1 q \<and> children w1 q = []
         then None else lookup w1 q)"
      "cwd w' = cwd w1 \<and> denied w' = denied w1 \<and> out w' = out w1"
      by blast
    have run: "remove_empty_folders SOURCE_FOLDER (c # cs) w = Inr w'"
      using True w1 w'(1) by (simp add: iterdir_def exists_iff is_dir_iff Let_def)
    have "lookup w' q =
        (if (\<exists>c\<in>set (c # cs). q = SOURCE_FOLDER @ [c]) \<and> is_dir w q \<and> children w q = []
         then None else lookup w q)" for q
    proof (cases "q = ?folder")
      case q: True
      then have "lookup w' q = None"
        using w'(2) r(1) [of q] by simp
      with q True show ?thesis by simp
    next
      case q: False
      have "is_dir w1 q = is_dir w q" using r(1) [of q] q by (simp add: is_dir_iff)
      moreover have "children w1 q = [] \<longleftrightarrow> children w q = []"
        if "\<exists>c\<in>set cs. q = SOURCE_FOLDER @ [c]"
        using that by (intro children_rmdir [OF w1]) (auto simp: parent_def)
      ultimately show ?thesis
        using w'(2) r(1) [of q] q by auto
    qed
    with run w'(3) r(2,3,4) show ?thesis by auto
  next
    case False
    from Cons.IH [OF rest] obtain w' where w':
      "remove_empty_folders SOURCE_FOLDER cs w = Inr w'"
      "\<forall>q. lookup w' q =
        (if (\<exists>c\<in>set cs. q = SOURCE_FOLDER @ [c]) \<and> is_dir w q \<and> children w q = []
         then None else lookup w q)"
      "cwd w' = cwd w \<and> denied w' = denied w \<and> out w' = out w"
      by blast
    have dir: "is_dir w ?folder" if "exists w ?folder"
      using that nf by (cases "lookup w ?folder")
        (auto simp: exists_iff is_dir_iff is_file_iff intro: node.exhaust)
    have run: "remove_empty_folders SOURCE_FOLDER (c # cs) w = Inr w'"
    proof (cases "exists w ?folder")
      case ex: True
      with dir False have "is_dir w ?folder" "children w ?folder \<noteq> []" by auto
      with ex w'(1) show ?thesis by (simp add: iterdir_def Let_def)
    next
      case ex: False
      with w'(1) show ?thesis by (simp add: Let_def)
    qed
    have "lookup w' q =
        (if (\<exists>c\<in>set (c # cs). q = SOURCE_FOLDER @ [c]) \<and> is_dir w q \<and> children w q = []
         then None else lookup w q)" for q
      using w'(2) False by auto
    with run w'(3) show ?thesis by auto
  qed
qed

text \<open>
  C8 holds as long as none of the seven names is a regular file of the folder (lemma
  \<open>remove_empty_folders_effect\<close>).  Where one is, the test \<open>folder.exists()\<close> lets it
  through and \<open>folder.iterdir()\<close> raises: in \<open>docs_world\<close>, \<open>undo\<close> restores the file named
  \<open>Documents\<close> and then stops at it; the empty folder \<open>Others\<close>, later in the list, is not
  removed, and the undo file is not deleted.
\<close>

theorem undo_stops_at_category_named_file:
  "organize [''d''] docs_world = Inr docs_world_sorted \<and>
   undo [''d''] docs_world_sorted = Inl (NotADirectoryError, docs_world_stuck) \<and>
   is_file docs_world_stuck [''d'', ''Documents''] \<and>
   is_dir docs_world_stuck [''d'', ''Others''] \<and>
   children docs_world_stuck [''d'', ''Others''] = [] \<and>
   exists docs_world_stuck (UNDO_FILE [''d''])"
proof -
  have "organize [''d''] docs_world = Inr docs_world_sorted" by code_simp
  moreover have "undo [''d''] docs_world_sorted = Inl (NotADirectoryError, docs_world_stuck)"
    by code_simp
  moreover have "is_file docs_world_stuck [''d'', ''Documents'']"
    "is_dir docs_world_stuck [''d'', ''Others'']"
    "children docs_world_stuck [''d'', ''Others''] = []"
    "exists docs_world_stuck (UNDO_FILE [''d''])"
    by code_simp+
  ultimately show ?thesis by (intro conjI)
qed

section \<open>The effect of the loop of organize\<close>

lemma organize_loop_append:
  "organize_loop SOURCE_FOLDER (xs @ ys) st =
     (case organize_loop SOURCE_FOLDER xs st of
        Inl e \<Rightarrow> Inl e
      | Inr st' \<Rightarrow> organize_loop SOURCE_FOLDER ys st')"
  by (induction xs arbitrary: st) (auto split: sum.splits)

lemma organized_Nil: "organized SOURCE_FOLDER w w []"
  by (simp add: organized_def)

text \<open>The invariant, taken apart.\<close>

lemma organized_moved:
  "organized SOURCE_FOLDER w w' new \<Longrightarrow> m \<in> set new \<Longrightarrow> moved SOURCE_FOLDER w w' new m"
  by (simp add: organized_def)

lemma organized_frame:
  assumes "organized SOURCE_FOLDER w w' new"
    and "q \<notin> fst ` set new" and "q \<notin> snd ` set new"
    and "\<forall>m\<in>set new. q \<noteq> SOURCE_FOLDER @ [category_of (snd m)]"
    and "\<not> is_log_file SOURCE_FOLDER q"
  shows "lookup w' q = lookup w q"
  using assms unfolding organized_def by blast

lemma organized_log:
  assumes "organized SOURCE_FOLDER w w' new" and "is_log_file SOURCE_FOLDER q"
  shows "lookup w' q = lookup w q \<or> is_file w' q"
  using assms unfolding organized_def by blast

lemma not_log_file_level: "length q = length SOURCE_FOLDER + 1 \<Longrightarrow> \<not> is_log_file SOURCE_FOLDER q"
  using is_log_file_length [of SOURCE_FOLDER q] by auto

lemma not_log_file_moved:
  "moved SOURCE_FOLDER w w' new m \<Longrightarrow> \<not> is_log_file SOURCE_FOLDER (fst m)"
  using not_log_file_destination [of SOURCE_FOLDER "suffix (snd m)"]
  by (auto simp: moved_def category_of_def)

lemma organized_fields:
  assumes "organized SOURCE_FOLDER w w' new"
  shows "cwd w' = cwd w" and "denied w' = denied w" and "distinct (map fst new)"
  using assms by (simp_all add: organized_def)

lemma movedD:
  assumes "moved SOURCE_FOLDER w w' new m"
  shows "\<exists>x. fst m = SOURCE_FOLDER @ [category_of (snd m), x] \<and> renamed (snd m) x"
    and "lookup w (fst m) = None"
    and "lookup w' (fst m) = lookup w (snd m)"
    and "eligible w (snd m)"
    and "is_dir w' (SOURCE_FOLDER @ [category_of (snd m)])"
    and "snd m \<notin> set (denied w)"
    and "\<forall>m2\<in>set new. snd m \<noteq> SOURCE_FOLDER @ [category_of (snd m2)] \<Longrightarrow>
           lookup w' (snd m) = None"
    and "is_file w (SOURCE_FOLDER @ [category_of (snd m)]) \<Longrightarrow>
           SOURCE_FOLDER @ [category_of (snd m)] \<in> snd ` set new"
  using assms by (simp_all add: moved_def)

lemma moved_length:
  "moved SOURCE_FOLDER w w' new m \<Longrightarrow> length (fst m) = length SOURCE_FOLDER + 2"
  by (auto simp: moved_def)

lemma eligible_lookup: "lookup w' p = lookup w p \<Longrightarrow> eligible w' p = eligible w p"
  by (simp add: eligible_def is_file_def)

lemma eligible_file: "eligible w p \<Longrightarrow> \<exists>c. lookup w p = Some (File c)"
  by (simp add: eligible_def is_file_iff)

text \<open>An entry of the folder that has not been moved is a file to move now if it was one.\<close>

lemma organized_eligible:
  assumes inv: "organized SOURCE_FOLDER w w1 new"
    and fresh: "item \<notin> snd ` set new"
    and lvl: "length item = length SOURCE_FOLDER + 1"
  shows "eligible w1 item = eligible w item"
proof (cases "\<exists>m\<in>set new. item = SOURCE_FOLDER @ [category_of (snd m)]")
  case True
  then obtain m where m: "m \<in> set new" "item = SOURCE_FOLDER @ [category_of (snd m)]"
    by blast
  note o = movedD [OF organized_moved [OF inv m(1)]]
  from o(5) m(2) have "\<not> eligible w1 item"
    by (auto simp: eligible_def is_dir_iff is_file_iff)
  moreover from o(8) m(2) fresh have "\<not> eligible w item"
    by (auto simp: eligible_def)
  ultimately show ?thesis by simp
next
  case False
  have "item \<notin> fst ` set new"
  proof
    assume "item \<in> fst ` set new"
    then obtain m where "m \<in> set new" "item = fst m" by auto
    with moved_length [OF organized_moved [OF inv this(1)]] lvl show False by simp
  qed
  with inv have "lookup w1 item = lookup w item"
    using fresh False not_log_file_level [OF lvl] by (intro organized_frame) auto
  then show ?thesis by (rule eligible_lookup)
qed

text \<open>One more move keeps the invariant.\<close>

lemma organized_step:
  assumes inv: "organized SOURCE_FOLDER w w1 new"
    and run: "organize_item SOURCE_FOLDER item (w1, ms, cc) = Inr (w2, ms2, cc2)"
    and el: "eligible w1 item"
    and fresh: "item \<notin> snd ` set new"
    and lvl: "length item = length SOURCE_FOLDER + 1"
      "\<forall>m\<in>set new. length (snd m) = length SOURCE_FOLDER + 1"
  defines "d \<equiv> resolve_dest_path w1 (SOURCE_FOLDER @ [category_of item]) item"
  shows "organized SOURCE_FOLDER w w2 (new @ [(d, item)])"
    and "ms2 = ms @ [(d, item)]"
    and "cc2 = increment (category_of item) cc"
    and "out w2 = out w1 @ [Moved (name item) (category_of item)]"
    and "eligible w item"
proof -
  let ?df = "SOURCE_FOLDER @ [category_of item]"
  let ?new2 = "new @ [(d, item)]"
  note mv = organized_moved [OF inv]
  from el have item: "is_file w1 item" "name item \<noteq> ''organizer.py''"
    by (simp_all add: eligible_def)
  note r = organize_item_Inr [OF run item, folded category_of_def, folded d_def]
  from r(1) show "ms2 = ms @ [(d, item)]" .
  from r(2) show "cc2 = increment (category_of item) cc" .
  from r(3) show "out w2 = out w1 @ [Moved (name item) (category_of item)]" .
  have w2: "lookup w2 q = (if q = d then lookup w1 item else if q = item then None
      else if q = ?df then Some Dir else lookup w1 q)"
    if "\<not> is_log_file SOURCE_FOLDER q" for q
    using that by (rule r(9))
  obtain x where x: "d = SOURCE_FOLDER @ [category_of item, x]" "renamed item x"
    using resolve_dest_path_shape [of w1 ?df item] by (auto simp: d_def)
  have len_d: "length d = length SOURCE_FOLDER + 2" using x(1) by simp
  have nl_d: "\<not> is_log_file SOURCE_FOLDER d"
    unfolding x(1) category_of_def by (rule not_log_file_destination)
  have nl_item: "\<not> is_log_file SOURCE_FOLDER item"
    using lvl(1) by (rule not_log_file_level)
  have nl_cat: "\<not> is_log_file SOURCE_FOLDER (SOURCE_FOLDER @ [c])" for c
    by (rule not_log_file_level) simp
  have dst_len: "length (fst m) = length SOURCE_FOLDER + 2" if "m \<in> set new" for m
    using mv [OF that] by (rule moved_length)
  have src_len: "length (snd m) = length SOURCE_FOLDER + 1" if "m \<in> set new" for m
    using lvl(2) that by simp
  \<comment> \<open>the item is in \<open>w1\<close> what it was in \<open>w\<close>\<close>
  have item_nd: "item \<notin> fst ` set new"
  proof
    assume "item \<in> fst ` set new"
    then obtain m where "m \<in> set new" "item = fst m" by auto
    with dst_len [of m] lvl(1) show False by simp
  qed
  have item_nc: "item \<noteq> SOURCE_FOLDER @ [category_of (snd m)]" if "m \<in> set new" for m
    using movedD(5) [OF mv [OF that]] item(1) by (auto simp: is_dir_iff is_file_iff)
  have item_w: "lookup w1 item = lookup w item"
    using inv item_nd fresh _ nl_item
  proof (rule organized_frame)
    show "\<forall>m\<in>set new. item \<noteq> SOURCE_FOLDER @ [category_of (snd m)]"
      using item_nc by simp
  qed
  show el_w: "eligible w item"
    using eligible_lookup [OF item_w] el by simp
  have item_nd2: "item \<noteq> d" using len_d lvl(1) by auto
  have item_ndf: "item \<noteq> ?df" using r(7) item(1) by auto
  \<comment> \<open>the destination is new\<close>
  have d_free1: "lookup w1 d = None" using r(6) by (simp add: exists_iff)
  have d_nd: "d \<notin> fst ` set new"
  proof
    assume "d \<in> fst ` set new"
    then obtain m where m: "m \<in> set new" "d = fst m" by auto
    from movedD(3) [OF mv [OF m(1)]] eligible_file [OF movedD(4) [OF mv [OF m(1)]]] m(2) d_free1
    show False by auto
  qed
  have d_ns: "d \<notin> snd ` set new"
  proof
    assume "d \<in> snd ` set new"
    then obtain m where "m \<in> set new" "d = snd m" by auto
    with src_len [of m] len_d show False by simp
  qed
  have d_free: "lookup w d = None"
  proof -
    have "lookup w1 d = lookup w d"
      using inv d_nd d_ns _ nl_d
    proof (rule organized_frame)
      show "\<forall>m\<in>set new. d \<noteq> SOURCE_FOLDER @ [category_of (snd m)]"
        using len_d by auto
    qed
    with d_free1 show ?thesis by simp
  qed
  \<comment> \<open>the parts of the invariant\<close>
  have dist: "distinct (map fst ?new2)"
    using organized_fields(3) [OF inv] d_nd by simp
  have new_move: "moved SOURCE_FOLDER w w2 ?new2 (d, item)"
    unfolding moved_def fst_conv snd_conv
  proof (intro conjI impI)
    show "\<exists>x. d = SOURCE_FOLDER @ [category_of item, x] \<and> renamed item x" using x by blast
    show "lookup w d = None" by (rule d_free)
    show "lookup w2 d = lookup w item" using w2 [OF nl_d] item_w by simp
    show "eligible w item" by (rule el_w)
    show "is_dir w2 ?df" using w2 [OF nl_cat, of "category_of item"] item_ndf len_d
      by (auto simp: is_dir_iff)
    show "item \<notin> set (denied w)" using r(8) organized_fields(2) [OF inv] by simp
    show "lookup w2 item = None" using w2 [OF nl_item] item_nd2 by simp
    assume isf: "is_file w ?df"
    have "?df \<in> snd ` set new"
    proof (rule ccontr)
      assume ns: "?df \<notin> snd ` set new"
      have "eligible w1 ?df = eligible w ?df"
        using inv ns by (rule organized_eligible) simp
      with isf r(7) show False
        using category_not_organizer [of "suffix item"]
        by (simp add: eligible_def name_def category_of_def)
    qed
    then show "?df \<in> snd ` set ?new2" by auto
  qed
  have old_move: "moved SOURCE_FOLDER w w2 ?new2 m" if m: "m \<in> set new" for m
    unfolding moved_def
  proof (intro conjI impI)
    note o = movedD [OF mv [OF m]]
    show "\<exists>x. fst m = SOURCE_FOLDER @ [category_of (snd m), x] \<and> renamed (snd m) x"
      by (rule o(1))
    show "lookup w (fst m) = None" by (rule o(2))
    show "eligible w (snd m)" by (rule o(4))
    show "snd m \<notin> set (denied w)" by (rule o(6))
    have "fst m \<noteq> d" using d_nd m by auto
    moreover have "fst m \<noteq> item" using item_nd m by auto
    moreover have "fst m \<noteq> ?df" using dst_len [OF m] by auto
    ultimately show "lookup w2 (fst m) = lookup w (snd m)"
      using w2 [OF not_log_file_moved [OF mv [OF m]]] o(3) by simp
    have "SOURCE_FOLDER @ [category_of (snd m)] \<noteq> d" using len_d by auto
    moreover have "SOURCE_FOLDER @ [category_of (snd m)] \<noteq> item"
      using item_nc [OF m] by simp
    ultimately show "is_dir w2 (SOURCE_FOLDER @ [category_of (snd m)])"
      using w2 [OF nl_cat, of "category_of (snd m)"] o(5) by (simp add: is_dir_iff)
    assume a: "\<forall>m2\<in>set ?new2. snd m \<noteq> SOURCE_FOLDER @ [category_of (snd m2)]"
    then have "\<forall>m2\<in>set new. snd m \<noteq> SOURCE_FOLDER @ [category_of (snd m2)]" by simp
    then have "lookup w1 (snd m) = None" by (rule o(7))
    moreover have "snd m \<noteq> d" using d_ns m by auto
    moreover have "snd m \<noteq> item" using fresh m by auto
    moreover have "snd m \<noteq> ?df" using a by simp
    ultimately show "lookup w2 (snd m) = None"
      using w2 [OF not_log_file_level [OF src_len [OF m]]] by simp
  next
    assume "is_file w (SOURCE_FOLDER @ [category_of (snd m)])"
    then have "SOURCE_FOLDER @ [category_of (snd m)] \<in> snd ` set new"
      by (rule movedD(8) [OF mv [OF m]])
    then show "SOURCE_FOLDER @ [category_of (snd m)] \<in> snd ` set ?new2" by auto
  qed
  have frame: "lookup w2 q = lookup w q"
    if q: "q \<notin> fst ` set ?new2" "q \<notin> snd ` set ?new2"
      "\<forall>m\<in>set ?new2. q \<noteq> SOURCE_FOLDER @ [category_of (snd m)]"
      "\<not> is_log_file SOURCE_FOLDER q" for q
  proof -
    from q have "q \<noteq> d" "q \<noteq> item" "q \<noteq> ?df" by auto
    then have "lookup w2 q = lookup w1 q" using w2 [OF q(4)] by simp
    also have "\<dots> = lookup w q"
      using inv
    proof (rule organized_frame)
      show "q \<notin> fst ` set new" "q \<notin> snd ` set new" using q by auto
      show "\<forall>m\<in>set new. q \<noteq> SOURCE_FOLDER @ [category_of (snd m)]" using q(3) by simp
      show "\<not> is_log_file SOURCE_FOLDER q" by (rule q(4))
    qed
    finally show ?thesis .
  qed
  have logs: "lookup w2 q = lookup w q \<or> is_file w2 q" if q: "is_log_file SOURCE_FOLDER q" for q
  proof -
    from q nl_item have "q \<noteq> item" by auto
    with r(10) [OF q] have "lookup w2 q = lookup w1 q \<or> is_file w2 q" by simp
    with organized_log [OF inv q] show ?thesis by (auto simp: is_file_iff)
  qed
  have "\<forall>m\<in>set ?new2. moved SOURCE_FOLDER w w2 ?new2 m"
    using new_move old_move by auto
  moreover have "cwd w2 = cwd w" "denied w2 = denied w"
    using r(4,5) organized_fields(1,2) [OF inv] by simp_all
  ultimately show "organized SOURCE_FOLDER w w2 ?new2"
    unfolding organized_def using dist frame logs by blast
qed

text \<open>A run of the loop that returns.\<close>

lemma organize_loop_effect:
  assumes "organize_loop SOURCE_FOLDER items (w, ms, cc) = Inr (w', ms', cc')"
    and "distinct items" and "\<forall>i\<in>set items. length i = length SOURCE_FOLDER + 1"
  shows "\<exists>new. ms' = ms @ new \<and> organized SOURCE_FOLDER w w' new \<and>
     map snd new = filter (eligible w) items \<and>
     sum_list (map snd cc') = sum_list (map snd cc) + length new \<and>
     out w' = out w @ map (\<lambda>m. Moved (name (snd m)) (category_of (snd m))) new"
  using assms
proof (induction items arbitrary: w' ms' cc' rule: rev_induct)
  case Nil
  then have "w' = w" "ms' = ms" "cc' = cc" by simp_all
  then show ?case
    by (intro exI [of _ "[]"]) (simp add: organized_Nil)
next
  case (snoc item items)
  from snoc.prems(1) obtain w1 ms1 cc1 where
    pre: "organize_loop SOURCE_FOLDER items (w, ms, cc) = Inr (w1, ms1, cc1)"
    and step: "organize_item SOURCE_FOLDER item (w1, ms1, cc1) = Inr (w', ms', cc')"
    by (auto simp: organize_loop_append split: sum.splits)
  from snoc.prems(2,3) have d: "distinct items" "item \<notin> set items"
    and l: "\<forall>i\<in>set items. length i = length SOURCE_FOLDER + 1"
      "length item = length SOURCE_FOLDER + 1"
    by simp_all
  from snoc.IH [OF pre d(1) l(1)] obtain new where new:
    "ms1 = ms @ new" "organized SOURCE_FOLDER w w1 new"
    "map snd new = filter (eligible w) items"
    "sum_list (map snd cc1) = sum_list (map snd cc) + length new"
    "out w1 = out w @ map (\<lambda>m. Moved (name (snd m)) (category_of (snd m))) new"
    by blast
  have srcs: "snd ` set new \<subseteq> set items"
  proof -
    have "snd ` set new = set (map snd new)" by simp
    also have "\<dots> \<subseteq> set items" unfolding new(3) by auto
    finally show ?thesis .
  qed
  with d(2) have fresh: "item \<notin> snd ` set new" by auto
  from srcs l(1) have lv: "\<forall>m\<in>set new. length (snd m) = length SOURCE_FOLDER + 1" by auto
  have el: "eligible w1 item = eligible w item"
    using new(2) fresh l(2) by (rule organized_eligible)
  show ?case
  proof (cases "eligible w1 item")
    case False
    with step have "w' = w1" "ms' = ms1" "cc' = cc1"
      by (auto simp: organize_item_def eligible_def)
    with new el False show ?thesis
      by (intro exI [of _ new]) auto
  next
    case True
    let ?d = "resolve_dest_path w1 (SOURCE_FOLDER @ [category_of item]) item"
    note s = organized_step [OF new(2) step True fresh l(2) lv]
    from s(4) new(5)
    have "out w' = out w @ map (\<lambda>m. Moved (name (snd m)) (category_of (snd m)))
        (new @ [(?d, item)])"
      by simp
    moreover have "map snd (new @ [(?d, item)]) = filter (eligible w) (items @ [item])"
      using new(3) s(5) by simp
    moreover have "sum_list (map snd cc') = sum_list (map snd cc) + length (new @ [(?d, item)])"
      using s(3) new(4) by (simp add: sum_increment)
    moreover have "ms' = ms @ (new @ [(?d, item)])"
      using s(2) new(1) by simp
    ultimately show ?thesis
      using s(1) by (intro exI [of _ "new @ [(?d, item)]"]) blast
  qed
qed

text \<open>The log folder stays a directory.\<close>

lemma organized_log_folder:
  assumes inv: "organized SOURCE_FOLDER w w' new" and dir: "is_dir w (LOG_FOLDER SOURCE_FOLDER)"
    and lvl: "\<forall>m\<in>set new. length (snd m) = length SOURCE_FOLDER + 1"
  shows "is_dir w' (LOG_FOLDER SOURCE_FOLDER)"
proof -
  let ?L = "LOG_FOLDER SOURCE_FOLDER"
  have "lookup w' ?L = lookup w ?L"
    using inv
  proof (rule organized_frame)
    show "?L \<notin> fst ` set new"
    proof
      assume "?L \<in> fst ` set new"
      then obtain m where m: "m \<in> set new" "?L = fst m" by auto
      from moved_length [OF organized_moved [OF inv m(1)]] m(2)
      have "length ?L = length SOURCE_FOLDER + 2" by simp
      then show False by (simp add: LOG_FOLDER_def)
    qed
    show "?L \<notin> snd ` set new"
    proof
      assume "?L \<in> snd ` set new"
      then obtain m where m: "m \<in> set new" "?L = snd m" by auto
      from movedD(4) [OF organized_moved [OF inv m(1)]] m(2) dir show False
        by (auto simp: eligible_def is_file_iff is_dir_iff)
    qed
    show "\<forall>m\<in>set new. ?L \<noteq> SOURCE_FOLDER @ [category_of (snd m)]"
    proof
      fix m
      from category_not_Sort_Logs [of "suffix (snd m)"]
      show "?L \<noteq> SOURCE_FOLDER @ [category_of (snd m)]"
        by (auto simp: LOG_FOLDER_def category_of_def)
    qed
    show "\<not> is_log_file SOURCE_FOLDER ?L"
      by (rule not_log_file_level) (simp add: LOG_FOLDER_def)
  qed
  with dir show ?thesis by (simp add: is_dir_iff)
qed

text \<open>When the loop returns.\<close>

lemma organize_item_succeeds:
  assumes "eligible w item" and "\<not> is_file w (SOURCE_FOLDER @ [category_of item])"
    and "is_dir w SOURCE_FOLDER" and "item \<notin> set (denied w)"
    and "is_dir w (LOG_FOLDER SOURCE_FOLDER)"
    and "\<forall>q. is_log_file SOURCE_FOLDER q \<longrightarrow> \<not> is_dir w q"
    and "length item = length SOURCE_FOLDER + 1"
  shows "\<exists>w' ms' cc'. organize_item SOURCE_FOLDER item (w, ms, cc) = Inr (w', ms', cc')"
proof -
  let ?df = "SOURCE_FOLDER @ [category_of item]"
  let ?L = "LOG_FOLDER SOURCE_FOLDER"
  from assms(1) obtain c where c: "lookup w item = Some (File c)"
    by (rule eligible_file [THEN exE])
  have "\<exists>w1. mkdir ?df w = Inr w1"
  proof (cases "exists w ?df")
    case True
    with assms(2) have "is_dir w ?df"
      by (cases "lookup w ?df") (auto simp: exists_iff is_dir_iff is_file_iff intro: node.exhaust)
    then show ?thesis by (simp add: mkdir_existing)
  next
    case False
    then show ?thesis using assms(3) by (intro mkdir_new) (simp_all add: parent_def)
  qed
  then obtain w1 where w1: "mkdir ?df w = Inr w1" by blast
  note m = mkdir_Inr [OF w1]
  let ?d = "resolve_dest_path w1 ?df item"
  from assms(1,2) have "item \<noteq> ?df" by (auto simp: eligible_def)
  then have c1: "lookup w1 item = Some (File c)" using m(1) [of item] c by simp
  have free: "\<not> exists w1 ?d" by (rule resolve_dest_path_free)
  obtain x where x: "?d = ?df @ [x]" using resolve_dest_path_parent by blast
  then have "parent ?d = butlast (?df @ [x])" by (simp only: parent_def)
  then have "parent ?d = ?df" by (simp only: butlast_snoc)
  then have pd: "is_dir w1 (parent ?d)" using m(1) [of ?df] by (simp add: is_dir_iff)
  have "item \<notin> set (denied w1)" using assms(4) m(3) by simp
  then have mv: "shutil_move item ?d w1 =
      Inr (w1\<lparr>fs := AList.update ?d (File c) (AList.delete item (fs w1))\<rparr>)"
    (is "_ = Inr ?w2")
    by (simp add: shutil_move_file [OF c1 free pd])
  note s = shutil_move_file_Inr [OF mv c1 free pd]
  have l2: "lookup ?w2 q = (if q = ?d then Some (File c) else if q = item then None
      else if q = ?df then Some Dir else lookup w q)" for q
    using s(1) [of q] m(1) [of q] by simp
  have nl: "\<not> is_log_file SOURCE_FOLDER ?d" "\<not> is_log_file SOURCE_FOLDER item"
    "\<not> is_log_file SOURCE_FOLDER ?df"
    using not_log_file_destination [of SOURCE_FOLDER "suffix item" x] x
      not_log_file_level [of item SOURCE_FOLDER] not_log_file_level [of ?df SOURCE_FOLDER]
      assms(7)
    by (simp_all add: category_of_def)
  have "?L \<noteq> ?d" "?L \<noteq> item" "?L \<noteq> ?df"
    using assms(1,2,5) x category_not_Sort_Logs [of "suffix item"]
    by (auto simp: LOG_FOLDER_def category_of_def eligible_def is_file_iff is_dir_iff)
  then have "is_dir ?w2 ?L" using l2 [of ?L] assms(5) by (simp add: is_dir_iff)
  moreover have "\<forall>q. is_log_file SOURCE_FOLDER q \<longrightarrow> \<not> is_dir ?w2 q"
  proof (intro allI impI)
    fix q assume q: "is_log_file SOURCE_FOLDER q"
    with nl have "q \<noteq> ?d" "q \<noteq> item" "q \<noteq> ?df" by auto
    with l2 [of q] assms(6) q show "\<not> is_dir ?w2 q" by (simp add: is_dir_iff)
  qed
  ultimately obtain w3 where
    "log SOURCE_FOLDER (Moved (name item) (category_of item)) ?w2 = Inr w3"
    using log_ok by blast
  with w1 mv assms(1) show ?thesis
    by (simp add: organize_item_def eligible_def category_of_def Let_def)
qed

lemma organize_loop_succeeds:
  assumes "distinct items" and "\<forall>i\<in>set items. length i = length SOURCE_FOLDER + 1"
    and "is_dir w SOURCE_FOLDER"
    and "\<forall>i\<in>set items. eligible w i \<longrightarrow> i \<notin> set (denied w)"
    and "\<forall>c\<in>set all_categories. \<not> is_file w (SOURCE_FOLDER @ [c])"
    and "is_dir w (LOG_FOLDER SOURCE_FOLDER)"
    and "\<forall>q. is_log_file SOURCE_FOLDER q \<longrightarrow> \<not> is_dir w q"
  shows "\<exists>w' ms' cc'. organize_loop SOURCE_FOLDER items (w, ms, cc) = Inr (w', ms', cc')"
  using assms(1,2,4)
proof (induction items rule: rev_induct)
  case Nil
  then show ?case by simp
next
  case (snoc item items)
  from snoc.prems have d: "distinct items" "item \<notin> set items"
    and l: "\<forall>i\<in>set items. length i = length SOURCE_FOLDER + 1"
      "length item = length SOURCE_FOLDER + 1"
    and dn: "\<forall>i\<in>set items. eligible w i \<longrightarrow> i \<notin> set (denied w)"
      "eligible w item \<longrightarrow> item \<notin> set (denied w)"
    by simp_all
  from snoc.IH [OF d(1) l(1) dn(1)] obtain w1 ms1 cc1 where
    pre: "organize_loop SOURCE_FOLDER items (w, ms, cc) = Inr (w1, ms1, cc1)"
    by blast
  from organize_loop_effect [OF pre d(1) l(1)] obtain new where new:
    "organized SOURCE_FOLDER w w1 new" "map snd new = filter (eligible w) items"
    by blast
  have srcs: "snd ` set new \<subseteq> set items"
  proof -
    have "snd ` set new = set (map snd new)" by simp
    also have "\<dots> \<subseteq> set items" unfolding new(2) by auto
    finally show ?thesis .
  qed
  with d(2) have fresh: "item \<notin> snd ` set new" by auto
  have el: "eligible w1 item = eligible w item"
    using new(1) fresh l(2) by (rule organized_eligible)
  have "\<exists>w' ms' cc'. organize_item SOURCE_FOLDER item (w1, ms1, cc1) = Inr (w', ms', cc')"
  proof (cases "eligible w1 item")
    case False
    then show ?thesis by (auto simp: organize_item_def eligible_def)
  next
    case True
    let ?df = "SOURCE_FOLDER @ [category_of item]"
    have cat: "category_of item \<in> set all_categories"
      by (simp add: category_of_def get_category_in_all)
    have "\<not> is_file w1 ?df"
    proof
      assume f: "is_file w1 ?df"
      have ne: "name ?df \<noteq> ''organizer.py''"
        using category_not_organizer [of "suffix item"] by (simp add: name_def category_of_def)
      show False
      proof (cases "?df \<in> snd ` set new")
        case True
        then obtain m where m: "m \<in> set new" "snd m = ?df" by force
        from movedD(4) [OF organized_moved [OF new(1) m(1)]] m(2) assms(5) cat
        show False by (auto simp: eligible_def)
      next
        case False
        have "eligible w1 ?df = eligible w ?df"
          using new(1) False by (rule organized_eligible) simp
        with f ne assms(5) cat show False by (auto simp: eligible_def)
      qed
    qed
    moreover have "is_dir w1 SOURCE_FOLDER"
    proof -
      have "SOURCE_FOLDER \<notin> fst ` set new"
      proof
        assume "SOURCE_FOLDER \<in> fst ` set new"
        then obtain m where "m \<in> set new" "SOURCE_FOLDER = fst m" by auto
        with moved_length [OF organized_moved [OF new(1) this(1)]] show False by simp
      qed
      moreover have "SOURCE_FOLDER \<notin> snd ` set new"
      proof
        assume "SOURCE_FOLDER \<in> snd ` set new"
        with srcs have "SOURCE_FOLDER \<in> set items" by blast
        with l(1) show False by auto
      qed
      moreover have "\<not> is_log_file SOURCE_FOLDER SOURCE_FOLDER"
        using is_log_file_length [of SOURCE_FOLDER SOURCE_FOLDER] by auto
      ultimately have "lookup w1 SOURCE_FOLDER = lookup w SOURCE_FOLDER"
        using new(1) by (intro organized_frame) auto
      with assms(3) show ?thesis by (simp add: is_dir_iff)
    qed
    moreover have "item \<notin> set (denied w1)"
      using True el dn(2) organized_fields(2) [OF new(1)] by simp
    moreover have "is_dir w1 (LOG_FOLDER SOURCE_FOLDER)"
      using organized_log_folder [OF new(1) assms(6)] srcs l(1) by auto
    moreover have "\<forall>q. is_log_file SOURCE_FOLDER q \<longrightarrow> \<not> is_dir w1 q"
    proof (intro allI impI)
      fix q assume q: "is_log_file SOURCE_FOLDER q"
      from organized_log [OF new(1) q] assms(7) q show "\<not> is_dir w1 q"
        by (auto simp: is_dir_iff is_file_iff)
    qed
    ultimately show ?thesis
      using True l(2) by (intro organize_item_succeeds) simp_all
  qed
  then obtain w' ms' cc' where
    "organize_item SOURCE_FOLDER item (w1, ms1, cc1) = Inr (w', ms', cc')"
    by blast
  with pre have "organize_loop SOURCE_FOLDER (items @ [item]) (w, ms, cc) = Inr (w', ms', cc')"
    by (simp add: organize_loop_append)
  then show ?case by blast
qed

section \<open>A run of organize, stage by stage\<close>

lemma children_filter:
  "children w d = filter (\<lambda>k. k \<noteq> [] \<and> parent k = d) (map fst (fs w))"
proof -
  have "[k. (k, v) \<leftarrow> es, k \<noteq> [], parent k = d] =
      filter (\<lambda>k. k \<noteq> [] \<and> parent k = d) (map fst es)" for es :: "(path \<times> node) list"
    by (induction es) auto
  then show ?thesis by (simp add: children_def)
qed

lemma distinct_children: "distinct (map fst (fs w)) \<Longrightarrow> distinct (children w d)"
  by (simp add: children_filter)

text \<open>
  An operation that adds at most one entry, at the end of the enumeration and outside the
  directory \<open>d\<close>, leaves the enumeration of \<open>d\<close> as it is.
\<close>

lemma keys_update:
  "map fst (AList.update k v es) = (if k \<in> fst ` set es then map fst es else map fst es @ [k])"
  by (simp add: update_keys)

lemma open_append_keys:
  assumes "open_append p w = Inr w'"
  shows "map fst (fs w') = map fst (fs w) \<or>
         (map fst (fs w') = map fst (fs w) @ [p] \<and> p \<notin> fst ` set (fs w))"
proof (cases "lookup w p")
  case None
  with assms have "fs w' = AList.update p (File []) (fs w)"
    by (auto simp: open_append_def split: if_splits)
  then show ?thesis by (simp add: keys_update)
next
  case (Some n)
  with assms have "w' = w" by (cases n) (auto simp: open_append_def)
  then show ?thesis by simp
qed

lemma write_end_keys: "map fst (fs (write_end p s w)) = map fst (fs w)"
proof (cases "lookup w p")
  case None
  then show ?thesis by (simp add: write_end_def)
next
  case (Some n)
  show ?thesis
  proof (cases n)
    case Dir
    with Some show ?thesis by (simp add: write_end_def)
  next
    case (File c)
    with Some have "p \<noteq> []" by auto
    with Some File have "p \<in> fst ` set (fs w)"
      by (auto simp: lookup_def dest: map_of_SomeD intro: rev_image_eqI)
    with Some File show ?thesis by (simp add: write_end_def keys_update)
  qed
qed

lemma log_keys:
  assumes "log SOURCE_FOLDER m w = Inr w'"
  shows "\<exists>f. is_log_file SOURCE_FOLDER f \<and>
     (map fst (fs w') = map fst (fs w) \<or>
      (map fst (fs w') = map fst (fs w) @ [f] \<and> f \<notin> fst ` set (fs w)))"
proof -
  obtain t w1 where n1: "datetime_now (print m w) = (t, w1)"
    by (cases "datetime_now (print m w)") auto
  let ?f = "LOG_FOLDER SOURCE_FOLDER @ [''log_'' @ timestamp t @ ''.txt'']"
  from assms n1 obtain w2 where w2: "open_append ?f w1 = Inr w2"
    by (auto simp: log_def Let_def split: sum.splits)
  obtain t' w3 where n2: "datetime_now w2 = (t', w3)" by (cases "datetime_now w2") auto
  from assms n1 w2 n2 have w': "w' = write_end ?f (log_line t' m) w3"
    by (simp add: log_def Let_def)
  from n1 have 1: "fs w1 = fs w" using datetime_now_fields(1) [of "print m w"] by simp
  from n2 have 3: "fs w3 = fs w2" using datetime_now_fields(1) [of w2] by simp
  have "map fst (fs w') = map fst (fs w2)" unfolding w' write_end_keys 3 ..
  moreover have "is_log_file SOURCE_FOLDER ?f" by (simp add: is_log_file_iff)
  ultimately show ?thesis using open_append_keys [OF w2] 1 by auto
qed

lemma log_children:
  assumes "log SOURCE_FOLDER m w = Inr w'" and "d \<noteq> LOG_FOLDER SOURCE_FOLDER"
  shows "children w' d = children w d"
    and "distinct (map fst (fs w)) \<Longrightarrow> distinct (map fst (fs w'))"
proof -
  from log_keys [OF assms(1)] obtain f where f: "is_log_file SOURCE_FOLDER f"
    "map fst (fs w') = map fst (fs w) \<or>
      (map fst (fs w') = map fst (fs w) @ [f] \<and> f \<notin> fst ` set (fs w))"
    by blast
  from f(1) assms(2) have "parent f \<noteq> d" by (auto simp: is_log_file_def)
  with f(2) show "children w' d = children w d"
    unfolding children_filter by auto
  from f(2) show "distinct (map fst (fs w'))" if "distinct (map fst (fs w))"
    using that by auto
qed

text \<open>The stages of a run that returns.\<close>

lemma organize_Inr:
  assumes "organize SOURCE_FOLDER w = Inr w'"
  shows "\<exists>w1 w2 w3 ms cc cc' w4 w5 w6.
     mkdir (LOG_FOLDER SOURCE_FOLDER) w = Inr w1 \<and>
     log SOURCE_FOLDER (Starting SOURCE_FOLDER) w1 = Inr w2 \<and> is_dir w2 SOURCE_FOLDER \<and>
     organize_loop SOURCE_FOLDER (children w2 SOURCE_FOLDER) (w2, [], []) = Inr (w3, ms, cc) \<and>
     report_empty SOURCE_FOLDER all_categories (cc, w3) = Inr (cc', w4) \<and>
     log SOURCE_FOLDER (Complete (sum_list (map snd cc'))) w4 = Inr w5 \<and>
     write_text (UNDO_FILE SOURCE_FOLDER) (concat (map ledger_line ms)) w5 = Inr w6 \<and>
     log SOURCE_FOLDER UndoSaved w6 = Inr w'"
proof -
  from assms obtain w1 where w1: "mkdir (LOG_FOLDER SOURCE_FOLDER) w = Inr w1"
    by (auto simp: organize_def ensure_log_folder_def split: sum.splits)
  with assms obtain w2 where w2: "log SOURCE_FOLDER (Starting SOURCE_FOLDER) w1 = Inr w2"
    by (auto simp: organize_def ensure_log_folder_def split: sum.splits)
  with assms w1 have dir: "is_dir w2 SOURCE_FOLDER"
    by (auto simp: organize_def ensure_log_folder_def iterdir_def split: if_splits)
  with assms w1 w2 obtain w3 ms cc where
    loop: "organize_loop SOURCE_FOLDER (children w2 SOURCE_FOLDER) (w2, [], []) = Inr (w3, ms, cc)"
    by (auto simp: organize_def ensure_log_folder_def iterdir_def split: sum.splits)
  with assms w1 w2 dir obtain cc' w4 where
    rep: "report_empty SOURCE_FOLDER all_categories (cc, w3) = Inr (cc', w4)"
    by (auto simp: organize_def ensure_log_folder_def iterdir_def split: sum.splits)
  with assms w1 w2 dir loop obtain w5 where
    w5: "log SOURCE_FOLDER (Complete (sum_list (map snd cc'))) w4 = Inr w5"
    by (auto simp: organize_def ensure_log_folder_def iterdir_def split: sum.splits)
  with assms w1 w2 dir loop rep obtain w6 where
    "write_text (UNDO_FILE SOURCE_FOLDER) (concat (map ledger_line ms)) w5 = Inr w6"
    "log SOURCE_FOLDER UndoSaved w6 = Inr w'"
    by (auto simp: organize_def ensure_log_folder_def iterdir_def split: sum.splits)
  with w1 w2 dir loop rep w5 show ?thesis by blast
qed

lemma organize_InrI:
  assumes "mkdir (LOG_FOLDER SOURCE_FOLDER) w = Inr w1"
    and "log SOURCE_FOLDER (Starting SOURCE_FOLDER) w1 = Inr w2" and "is_dir w2 SOURCE_FOLDER"
    and "organize_loop SOURCE_FOLDER (children w2 SOURCE_FOLDER) (w2, [], []) = Inr (w3, ms, cc)"
    and "report_empty SOURCE_FOLDER all_categories (cc, w3) = Inr (cc', w4)"
    and "log SOURCE_FOLDER (Complete (sum_list (map snd cc'))) w4 = Inr w5"
    and "write_text (UNDO_FILE SOURCE_FOLDER) (concat (map ledger_line ms)) w5 = Inr w6"
  shows "organize SOURCE_FOLDER w = log SOURCE_FOLDER UndoSaved w6"
  using assms
  by (simp add: organize_def ensure_log_folder_def iterdir_def)

lemma organize_InlI:
  assumes "mkdir (LOG_FOLDER SOURCE_FOLDER) w = Inr w1"
    and "log SOURCE_FOLDER (Starting SOURCE_FOLDER) w1 = Inr w2" and "is_dir w2 SOURCE_FOLDER"
    and "organize_loop SOURCE_FOLDER (children w2 SOURCE_FOLDER) (w2, [], []) = Inl e"
  shows "organize SOURCE_FOLDER w = Inl e"
  using assms
  by (simp add: organize_def ensure_log_folder_def iterdir_def)

text \<open>
  The first two stages, making the log folder and logging the start, do not change which
  entries of the folder are moved, nor their order.
\<close>

lemma organize_start:
  assumes w1: "mkdir (LOG_FOLDER SOURCE_FOLDER) w = Inr w1"
    and w2: "log SOURCE_FOLDER (Starting SOURCE_FOLDER) w1 = Inr w2"
  shows "q \<noteq> LOG_FOLDER SOURCE_FOLDER \<Longrightarrow> \<not> is_log_file SOURCE_FOLDER q \<Longrightarrow>
           lookup w2 q = lookup w q"
    and "is_dir w2 (LOG_FOLDER SOURCE_FOLDER)"
    and "is_log_file SOURCE_FOLDER q \<Longrightarrow> lookup w2 q = lookup w q \<or> is_file w2 q"
    and "children w2 SOURCE_FOLDER = children w SOURCE_FOLDER \<or>
         children w2 SOURCE_FOLDER = children w SOURCE_FOLDER @ [LOG_FOLDER SOURCE_FOLDER]"
    and "filter (eligible w2) (children w2 SOURCE_FOLDER) =
         filter (eligible w) (children w SOURCE_FOLDER)"
    and "distinct (map fst (fs w)) \<Longrightarrow> distinct (map fst (fs w2))"
    and "cwd w2 = cwd w" and "denied w2 = denied w"
    and "out w2 = out w @ [Starting SOURCE_FOLDER]"
    and "length p = length SOURCE_FOLDER + 1 \<Longrightarrow> eligible w2 p = eligible w p"
proof -
  let ?L = "LOG_FOLDER SOURCE_FOLDER"
  note k = mkdir_Inr [OF w1]
  note l = log_Inr [OF w2]
  have nlL: "\<not> is_log_file SOURCE_FOLDER ?L"
    using is_log_file_length [of SOURCE_FOLDER ?L] by (auto simp: LOG_FOLDER_def)
  show 1: "lookup w2 q = lookup w q" if "q \<noteq> ?L" "\<not> is_log_file SOURCE_FOLDER q" for q
    using l(1) [OF that(2)] k(1) [of q] that(1) by simp
  show "is_dir w2 ?L" using l(1) [OF nlL] k(1) [of ?L] by (simp add: is_dir_iff)
  show "lookup w2 q = lookup w q \<or> is_file w2 q" if "is_log_file SOURCE_FOLDER q"
  proof -
    from that nlL have "q \<noteq> ?L" by auto
    with l(5) [of q] k(1) [of q] show ?thesis by auto
  qed
  show "cwd w2 = cwd w" "denied w2 = denied w" "out w2 = out w @ [Starting SOURCE_FOLDER]"
    using l(2,3,4) k(2,3,4) by simp_all
  have el: "eligible w2 p = eligible w p" if "length p = length SOURCE_FOLDER + 1" for p
  proof (cases "p = ?L")
    case True
    with k(1) [of p] l(1) [OF nlL] have "\<not> eligible w2 p"
      by (simp add: eligible_def is_file_iff)
    moreover from w1 True have "\<not> eligible w p"
      by (auto simp: eligible_def mkdir_file)
    ultimately show ?thesis by simp
  next
    case False
    have "\<not> is_log_file SOURCE_FOLDER p"
      using is_log_file_length [of SOURCE_FOLDER p] that by auto
    with False have "lookup w2 p = lookup w p" by (rule 1)
    then show ?thesis by (simp add: eligible_def is_file_def)
  qed
  then show "eligible w2 p = eligible w p" if "length p = length SOURCE_FOLDER + 1"
    using that by simp
  have fs1: "fs w1 = fs w \<or> fs w1 = AList.update ?L Dir (fs w) \<and> lookup w ?L = None"
    using w1 by (auto simp: mkdir_def split: option.splits node.splits if_splits)
  then have d1: "distinct (map fst (fs w1))" if "distinct (map fst (fs w))"
    using that by (auto simp: distinct_update)
  have RL: "SOURCE_FOLDER \<noteq> ?L" by (simp add: LOG_FOLDER_def)
  show "distinct (map fst (fs w2))" if "distinct (map fst (fs w))"
    using log_children(2) [OF w2 RL] d1 [OF that] by simp
  from fs1 have c1: "children w1 SOURCE_FOLDER = children w SOURCE_FOLDER \<or>
      children w1 SOURCE_FOLDER = children w SOURCE_FOLDER @ [?L]"
  proof
    assume "fs w1 = fs w"
    then show ?thesis by (simp add: children_def)
  next
    assume a: "fs w1 = AList.update ?L Dir (fs w) \<and> lookup w ?L = None"
    then have "?L \<notin> set (map fst (fs w))"
      by (simp add: lookup_def LOG_FOLDER_def map_of_eq_None_iff)
    with a have "map fst (fs w1) = map fst (fs w) @ [?L]"
      by (simp add: update_keys)
    then show ?thesis
      by (simp add: children_filter LOG_FOLDER_def parent_def)
  qed
  then show c2: "children w2 SOURCE_FOLDER = children w SOURCE_FOLDER \<or>
      children w2 SOURCE_FOLDER = children w SOURCE_FOLDER @ [?L]"
    using log_children(1) [OF w2 RL] by simp
  have "\<not> eligible w2 ?L" using el [of ?L] w1
    by (auto simp: eligible_def mkdir_file LOG_FOLDER_def)
  moreover have "filter (eligible w2) (children w SOURCE_FOLDER) =
      filter (eligible w) (children w SOURCE_FOLDER)"
    using el by (intro filter_cong) (auto dest: children_length)
  ultimately show "filter (eligible w2) (children w2 SOURCE_FOLDER) =
      filter (eligible w) (children w SOURCE_FOLDER)"
    using c2 by auto
qed

lemma organize_start_ok:
  assumes "is_dir w SOURCE_FOLDER" and "\<not> is_file w (LOG_FOLDER SOURCE_FOLDER)"
    and "\<forall>q. is_log_file SOURCE_FOLDER q \<longrightarrow> \<not> is_dir w q"
  shows "\<exists>w1 w2. mkdir (LOG_FOLDER SOURCE_FOLDER) w = Inr w1 \<and>
     log SOURCE_FOLDER (Starting SOURCE_FOLDER) w1 = Inr w2"
proof -
  let ?L = "LOG_FOLDER SOURCE_FOLDER"
  have "\<exists>w1. mkdir ?L w = Inr w1"
  proof (cases "exists w ?L")
    case True
    with assms(2) have "is_dir w ?L"
      by (cases "lookup w ?L") (auto simp: exists_iff is_dir_iff is_file_iff intro: node.exhaust)
    then show ?thesis by (simp add: mkdir_existing)
  next
    case False
    then show ?thesis using assms(1) by (intro mkdir_new) (simp_all add: parent_def LOG_FOLDER_def)
  qed
  then obtain w1 where w1: "mkdir ?L w = Inr w1" by blast
  note k = mkdir_Inr [OF w1]
  have "is_dir w1 ?L" using k(1) [of ?L] by (simp add: is_dir_iff)
  moreover have "\<forall>q. is_log_file SOURCE_FOLDER q \<longrightarrow> \<not> is_dir w1 q"
  proof (intro allI impI)
    fix q assume q: "is_log_file SOURCE_FOLDER q"
    then have "q \<noteq> ?L" using is_log_file_length [of SOURCE_FOLDER q] by (auto simp: LOG_FOLDER_def)
    with k(1) [of q] assms(3) q show "\<not> is_dir w1 q" by (simp add: is_dir_iff)
  qed
  ultimately obtain w2 where "log SOURCE_FOLDER (Starting SOURCE_FOLDER) w1 = Inr w2"
    using log_ok by blast
  with w1 show ?thesis by blast
qed

section \<open>A run of organize in which a move is refused\<close>

lemma destination_not_undo_file:
  "SOURCE_FOLDER @ [category_of p, x] \<noteq> UNDO_FILE SOURCE_FOLDER"
  using category_not_Sort_Logs [of "suffix p"]
  by (simp add: UNDO_FILE_def LOG_FOLDER_def category_of_def)

text \<open>No category folder becomes a regular file, and the folder stays a directory.\<close>

lemma organized_category_free:
  assumes inv: "organized SOURCE_FOLDER w w1 new"
    and nc: "\<forall>c\<in>set all_categories. \<not> is_file w (SOURCE_FOLDER @ [c])"
    and c: "c \<in> set all_categories"
  shows "\<not> is_file w1 (SOURCE_FOLDER @ [c])"
proof
  let ?df = "SOURCE_FOLDER @ [c]"
  assume f: "is_file w1 ?df"
  from c have ne: "name ?df \<noteq> ''organizer.py''"
    by (auto simp: name_def all_categories_def)
  show False
  proof (cases "?df \<in> snd ` set new")
    case True
    then obtain m where m: "m \<in> set new" "snd m = ?df" by force
    from movedD(4) [OF organized_moved [OF inv m(1)]] m(2) nc c
    show False by (auto simp: eligible_def)
  next
    case False
    have "eligible w1 ?df = eligible w ?df"
      using inv False by (rule organized_eligible) simp
    with f ne nc c show False by (auto simp: eligible_def)
  qed
qed

lemma organized_folder:
  assumes inv: "organized SOURCE_FOLDER w w1 new" and dir: "is_dir w SOURCE_FOLDER"
    and lvl: "\<forall>m\<in>set new. length (snd m) = length SOURCE_FOLDER + 1"
  shows "is_dir w1 SOURCE_FOLDER"
proof -
  have "SOURCE_FOLDER \<notin> fst ` set new"
  proof
    assume "SOURCE_FOLDER \<in> fst ` set new"
    then obtain m where "m \<in> set new" "SOURCE_FOLDER = fst m" by auto
    with moved_length [OF organized_moved [OF inv this(1)]] show False by simp
  qed
  moreover have "SOURCE_FOLDER \<notin> snd ` set new" using lvl by auto
  moreover have "\<not> is_log_file SOURCE_FOLDER SOURCE_FOLDER"
    using is_log_file_length [of SOURCE_FOLDER SOURCE_FOLDER] by auto
  ultimately have "lookup w1 SOURCE_FOLDER = lookup w SOURCE_FOLDER"
    using inv by (intro organized_frame) auto
  with dir show ?thesis by (simp add: is_dir_iff)
qed

text \<open>
  The entries of the folder are enumerated as \<open>A @ x # B\<close>.  The files to move among \<open>A\<close>
  can be moved; the file \<open>x\<close> is one that the operating system refuses to take out of the
  folder.  Then the run moves the files of \<open>A\<close>, copies \<open>x\<close> to its destination \<open>d\<close>, and
  ends with the \<open>PermissionError\<close> of unlinking \<open>x\<close>: the entries \<open>B\<close> are not visited and
  the undo file is not written.
\<close>

lemma organize_refused:
  assumes dk: "distinct (map fst (fs w))" and dir: "is_dir w SOURCE_FOLDER"
    and lg: "\<not> is_file w (LOG_FOLDER SOURCE_FOLDER)" and ls: "loggable SOURCE_FOLDER w"
    and nc: "\<forall>c\<in>set all_categories. \<not> is_file w (SOURCE_FOLDER @ [c])"
    and ch: "children w SOURCE_FOLDER = A @ x # B"
    and ex: "eligible w x" and dx: "x \<in> set (denied w)"
    and da: "\<forall>p\<in>set A. eligible w p \<longrightarrow> p \<notin> set (denied w)"
  shows "\<exists>w' d. organize SOURCE_FOLDER w = Inl (PermissionError, w') \<and>
     lookup w' x = lookup w x \<and>
     parent d = SOURCE_FOLDER @ [category_of x] \<and> lookup w d = None \<and>
     lookup w' d = lookup w x \<and>
     (\<forall>p\<in>set A. eligible w p \<longrightarrow> lookup w' p = None) \<and>
     (\<forall>p\<in>set B. lookup w' p = lookup w p) \<and>
     lookup w' (UNDO_FILE SOURCE_FOLDER) = lookup w (UNDO_FILE SOURCE_FOLDER) \<and>
     out w' = out w @ Starting SOURCE_FOLDER #
                map (\<lambda>p. Moved (name p) (category_of p)) (filter (eligible w) A)"
proof -
  let ?R = SOURCE_FOLDER
  let ?L = "LOG_FOLDER SOURCE_FOLDER" and ?U = "UNDO_FILE SOURCE_FOLDER"
  let ?df = "?R @ [get_category (suffix x)]"
  from ls have ls': "\<forall>q. is_log_file ?R q \<longrightarrow> \<not> is_dir w q" by (simp add: loggable_iff)
  from organize_start_ok [OF dir lg ls'] obtain w1 w2 where
    w1: "mkdir ?L w = Inr w1" and w2: "log ?R (Starting ?R) w1 = Inr w2" by blast
  note st = organize_start [OF w1 w2]
  have nl1: "\<not> is_log_file ?R q" if "length q = length ?R + 1" for q
    using that by (rule not_log_file_level)
  have nlR: "\<not> is_log_file ?R ?R" using is_log_file_length [of ?R ?R] by auto
  have same2: "lookup w2 q = lookup w q" if "length q = length ?R + 1" "q \<noteq> ?L" for q
    using that(2) nl1 [OF that(1)] by (rule st(1))
  have R2: "is_dir w2 ?R"
    using st(1) [of ?R] nlR dir by (simp add: is_dir_iff LOG_FOLDER_def)
  let ?items = "children w2 ?R"
  have "\<exists>B'. ?items = A @ x # B' \<and> set B \<subseteq> set B'"
    using st(4)
  proof
    assume "?items = children w ?R"
    with ch show ?thesis by (intro exI [of _ B]) simp
  next
    assume "?items = children w ?R @ [?L]"
    with ch show ?thesis by (intro exI [of _ "B @ [?L]"]) auto
  qed
  then obtain B' where items: "?items = A @ x # B'" and BB: "set B \<subseteq> set B'"
    by blast
  have dc: "distinct ?items" using st(6) [OF dk] by (rule distinct_children)
  have lv: "\<forall>i\<in>set ?items. length i = length ?R + 1" by (simp add: children_length)
  from dc items have dA: "distinct A" and xA: "x \<notin> set A" and xB: "x \<notin> set B'"
    and AB: "set A \<inter> set B' = {}" by auto
  from lv items have lA: "\<forall>i\<in>set A. length i = length ?R + 1"
    and lx: "length x = length ?R + 1" and lB: "\<forall>i\<in>set B'. length i = length ?R + 1"
    by auto
  have nc2: "\<forall>c\<in>set all_categories. \<not> is_file w2 (?R @ [c])"
  proof
    fix c assume c: "c \<in> set all_categories"
    have "lookup w2 (?R @ [c]) = lookup w (?R @ [c])"
      using category_neq_Sort_Logs [OF c] by (intro same2) (simp_all add: LOG_FOLDER_def)
    with nc c show "\<not> is_file w2 (?R @ [c])" by (simp add: is_file_iff)
  qed
  have ls2: "\<forall>q. is_log_file ?R q \<longrightarrow> \<not> is_dir w2 q"
  proof (intro allI impI)
    fix q assume q: "is_log_file ?R q"
    from st(3) [OF q] ls' q show "\<not> is_dir w2 q" by (auto simp: is_dir_iff is_file_iff)
  qed
  \<comment> \<open>the entries before \<open>x\<close>\<close>
  have "\<exists>w3 ms cc. organize_loop ?R A (w2, [], []) = Inr (w3, ms, cc)"
    using dA lA R2 _ nc2 st(2) ls2
  proof (rule organize_loop_succeeds)
    show "\<forall>i\<in>set A. eligible w2 i \<longrightarrow> i \<notin> set (denied w2)"
      using st(10) lA da st(8) by auto
  qed
  then obtain w3 ms cc where loopA: "organize_loop ?R A (w2, [], []) = Inr (w3, ms, cc)"
    by blast
  from organize_loop_effect [OF loopA dA lA]
  obtain new where new0: "ms = [] @ new \<and> organized ?R w2 w3 new \<and>
    map snd new = filter (eligible w2) A \<and>
    sum_list (map snd cc) = sum_list (map snd ([] :: counts)) + length new \<and>
    out w3 = out w2 @ map (\<lambda>m. Moved (name (snd m)) (category_of (snd m))) new" ..
  then have inv: "organized ?R w2 w3 ms"
    and srcs2: "map snd ms = filter (eligible w2) A"
    and out3: "out w3 = out w2 @ map (\<lambda>m. Moved (name (snd m)) (category_of (snd m))) ms"
    by simp_all
  have "filter (eligible w2) A = filter (eligible w) A"
    using st(10) lA by (intro filter_cong) auto
  with srcs2 have srcs: "map snd ms = filter (eligible w) A" by simp
  note mv = organized_moved [OF inv]
  have src: "snd m \<in> set A" "eligible w (snd m)" if "m \<in> set ms" for m
  proof -
    from that have "snd m \<in> set (map snd ms)" by simp
    then show "snd m \<in> set A" "eligible w (snd m)" unfolding srcs by simp_all
  qed
  have src_len: "length (snd m) = length ?R + 1" if "m \<in> set ms" for m
    using src(1) [OF that] lA by simp
  then have lvm: "\<forall>m\<in>set ms. length (snd m) = length ?R + 1" by simp
  have dst_len: "length (fst m) = length ?R + 2" if "m \<in> set ms" for m
    using mv [OF that] by (rule moved_length)
  have src_cat: "snd m \<noteq> ?R @ [c]" if "m \<in> set ms" "c \<in> set all_categories" for m c
    using src(2) [OF that(1)] nc that(2) by (auto simp: eligible_def)
  have frame3: "lookup w3 q = lookup w2 q"
    if "length q = length ?R + 1" "q \<notin> set A" "\<forall>c\<in>set all_categories. q \<noteq> ?R @ [c]" for q
    using inv
  proof (rule organized_frame)
    show "q \<notin> fst ` set ms"
    proof
      assume "q \<in> fst ` set ms"
      then obtain m where "m \<in> set ms" "q = fst m" by auto
      with dst_len [of m] that(1) show False by simp
    qed
    show "q \<notin> snd ` set ms" using src(1) that(2) by auto
    show "\<forall>m\<in>set ms. q \<noteq> ?R @ [category_of (snd m)]"
      using that(3) category_of_in_all by blast
    show "\<not> is_log_file ?R q" using that(1) by (rule nl1)
  qed
  \<comment> \<open>the file \<open>x\<close>\<close>
  from ex obtain c where cx: "lookup w x = Some (File c)" by (rule eligible_file [THEN exE])
  from ex have nx: "name x \<noteq> ''organizer.py''" by (simp add: eligible_def)
  have xL: "x \<noteq> ?L" using cx lg by (auto simp: is_file_iff)
  have xc: "\<forall>c\<in>set all_categories. x \<noteq> ?R @ [c]"
    using nc cx by (auto simp: is_file_iff)
  have x3: "lookup w3 x = lookup w x"
    using frame3 [OF lx xA xc] same2 [OF lx xL] by simp
  have ncat3: "\<not> is_file w3 ?df"
    using inv nc2 get_category_in_all by (rule organized_category_free)
  have R3: "is_dir w3 ?R" using inv R2 lvm by (rule organized_folder)
  have dn3: "x \<in> set (denied w3)" using organized_fields(2) [OF inv] st(8) dx by simp
  let ?d = "resolve_dest_path w3 ?df x"
  from cx x3 have c3: "lookup w3 x = Some (File c)" by simp
  have free3: "\<not> exists w3 ?d"
    by (rule organize_item_refused(2) [OF c3 nx ncat3 R3 dn3])
  from organize_item_refused(1) [OF c3 nx ncat3 R3 dn3, of ms cc]
  obtain w4 where w4: "organize_item ?R x (w3, ms, cc) = Inl (PermissionError, w4) \<and>
     (\<forall>q. lookup w4 q = (if q = ?d then Some (File c) else if q = ?df then Some Dir
                        else lookup w3 q)) \<and>
     cwd w4 = cwd w3 \<and> denied w4 = denied w3 \<and> out w4 = out w3" ..
  then have r: "organize_item ?R x (w3, ms, cc) = Inl (PermissionError, w4)"
    and out4: "out w4 = out w3" by simp_all
  have l4: "lookup w4 q = (if q = ?d then Some (File c) else if q = ?df then Some Dir
        else lookup w3 q)" for q
    using w4 by simp
  have loop: "organize_loop ?R ?items (w2, [], []) = Inl (PermissionError, w4)"
    unfolding items using loopA r by (simp add: organize_loop_append)
  have run: "organize ?R w = Inl (PermissionError, w4)"
    using w1 w2 R2 loop by (rule organize_InlI)
  obtain y where y: "?d = ?df @ [y]" using resolve_dest_path_parent by blast
  have len_d: "length ?d = length ?R + 2" unfolding y by simp
  have "parent ?d = butlast (?df @ [y])" unfolding y by (simp only: parent_def)
  then have pd: "parent ?d = ?R @ [category_of x]"
    by (simp only: butlast_snoc category_of_def)
  have nl_d: "\<not> is_log_file ?R ?d"
    unfolding y using not_log_file_destination [of ?R "suffix x" y] by simp
  \<comment> \<open>the parts of the statement\<close>
  have 1: "lookup w4 x = lookup w x"
  proof -
    have "x \<noteq> ?d" using len_d lx by auto
    moreover have "x \<noteq> ?df" using xc get_category_in_all by blast
    ultimately show ?thesis using l4 [of x] x3 by simp
  qed
  have 2: "lookup w ?d = None"
  proof -
    have "?d \<notin> fst ` set ms"
    proof
      assume "?d \<in> fst ` set ms"
      then obtain m where m: "m \<in> set ms" "?d = fst m" by auto
      from movedD(3) [OF mv [OF m(1)]] eligible_file [OF movedD(4) [OF mv [OF m(1)]]] m(2) free3
      show False by (auto simp: exists_iff)
    qed
    moreover have "?d \<notin> snd ` set ms" using src_len len_d by auto
    moreover have "\<forall>m\<in>set ms. ?d \<noteq> ?R @ [category_of (snd m)]" using len_d by auto
    ultimately have "lookup w3 ?d = lookup w2 ?d"
      using inv nl_d by (intro organized_frame)
    moreover have "lookup w2 ?d = lookup w ?d"
      using nl_d len_d by (intro st(1)) (auto simp: LOG_FOLDER_def)
    ultimately show ?thesis using free3 by (simp add: exists_iff)
  qed
  have 3: "lookup w4 ?d = lookup w x" using l4 [of ?d] cx by simp
  have 4: "lookup w4 p = None" if p: "p \<in> set A" "eligible w p" for p
  proof -
    from p have "p \<in> set (map snd ms)" unfolding srcs by simp
    then obtain m where m: "m \<in> set ms" "p = snd m" by auto
    have "lookup w3 (snd m) = None"
    proof (rule movedD(7) [OF mv [OF m(1)]])
      show "\<forall>m2\<in>set ms. snd m \<noteq> ?R @ [category_of (snd m2)]"
      proof
        fix m2
        show "snd m \<noteq> ?R @ [category_of (snd m2)]"
          using m(1) category_of_in_all by (rule src_cat)
      qed
    qed
    then have "lookup w3 p = None" using m(2) by simp
    moreover from lA p(1) have "length p = length ?R + 1" by simp
    with len_d have "p \<noteq> ?d" by auto
    moreover have "snd m \<noteq> ?df"
      using m(1) get_category_in_all by (rule src_cat)
    with m(2) have "p \<noteq> ?df" by simp
    ultimately show ?thesis using l4 [of p] by simp
  qed
  have 5: "lookup w4 p = lookup w p" if p: "p \<in> set B" for p
  proof -
    from p BB have pB: "p \<in> set B'" by blast
    with lB have lp: "length p = length ?R + 1" by simp
    from pB AB have pA: "p \<notin> set A" by auto
    from p ch have "p \<in> set (children w ?R)" by simp
    then have ex: "lookup w p \<noteq> None" unfolding set_children by simp
    have nd: "p \<noteq> ?d" using len_d lp by auto
    show ?thesis
    proof (cases "is_dir w p")
      case True
      have d2: "is_dir w2 p"
      proof (cases "p = ?L")
        case True
        with st(2) show ?thesis by simp
      next
        case False
        with same2 [OF lp] True show ?thesis by (simp add: is_dir_iff)
      qed
      have "is_dir w3 p"
      proof (cases "\<exists>m\<in>set ms. p = ?R @ [category_of (snd m)]")
        case True
        then obtain m where "m \<in> set ms" "p = ?R @ [category_of (snd m)]" by blast
        with movedD(5) [OF mv [OF this(1)]] show ?thesis by simp
      next
        case False
        have "lookup w3 p = lookup w2 p"
          using inv
        proof (rule organized_frame)
          show "p \<notin> fst ` set ms"
          proof
            assume "p \<in> fst ` set ms"
            then obtain m where "m \<in> set ms" "p = fst m" by auto
            with dst_len [of m] lp show False by simp
          qed
          show "p \<notin> snd ` set ms" using src(1) pA by auto
          show "\<forall>m\<in>set ms. p \<noteq> ?R @ [category_of (snd m)]" using False by blast
          show "\<not> is_log_file ?R p" using lp by (rule nl1)
        qed
        with d2 show ?thesis by (simp add: is_dir_iff)
      qed
      with l4 [of p] nd True show ?thesis by (simp add: is_dir_iff)
    next
      case False
      with ex have f: "is_file w p"
        by (cases "lookup w p") (auto simp: is_dir_iff is_file_iff intro: node.exhaust)
      with lg have pL: "p \<noteq> ?L" by auto
      from f nc have pc: "\<forall>c\<in>set all_categories. p \<noteq> ?R @ [c]" by auto
      then have "p \<noteq> ?df" using get_category_in_all by blast
      with l4 [of p] nd frame3 [OF lp pA pc] same2 [OF lp pL] show ?thesis by simp
    qed
  qed
  have 6: "lookup w4 ?U = lookup w ?U"
  proof -
    have lenU: "length ?U = length ?R + 2" by (simp add: UNDO_FILE_def LOG_FOLDER_def)
    have "?U \<noteq> ?d"
      unfolding y using destination_not_undo_file [of ?R x y] by (simp add: category_of_def)
    moreover have "?U \<noteq> ?df" using lenU by auto
    moreover have "lookup w3 ?U = lookup w2 ?U"
      using inv
    proof (rule organized_frame)
      show "?U \<notin> fst ` set ms"
      proof
        assume "?U \<in> fst ` set ms"
        then obtain m where m: "m \<in> set ms" "?U = fst m" by auto
        from movedD(1) [OF mv [OF m(1)]] m(2) destination_not_undo_file
        show False by metis
      qed
      show "?U \<notin> snd ` set ms" using src_len lenU by auto
      show "\<forall>m\<in>set ms. ?U \<noteq> ?R @ [category_of (snd m)]" using lenU by auto
      show "\<not> is_log_file ?R ?U" by (rule not_log_file_UNDO_FILE)
    qed
    moreover have "lookup w2 ?U = lookup w ?U"
      using not_log_file_UNDO_FILE by (intro st(1)) (simp_all add: UNDO_FILE_def)
    ultimately show ?thesis using l4 [of ?U] by simp
  qed
  have "map (\<lambda>m. Moved (name (snd m)) (category_of (snd m))) ms =
      map (\<lambda>p. Moved (name p) (category_of p)) (map snd ms)"
    by simp
  then have 7: "out w4 = out w @ Starting ?R #
      map (\<lambda>p. Moved (name p) (category_of p)) (filter (eligible w) A)"
    using out4 out3 st(9) srcs by simp
  from run 1 pd 2 3 4 5 6 7 show ?thesis
    by (intro exI [of _ w4] exI [of _ ?d]) blast
qed




section \<open>The file of the program\<close>

text \<open>
  C9: the loop of \<open>organize\<close> is meant to "ignore folders and ignore the script itself",
  and it does leave directories, \<open>Sort_Logs\<close> among them, where they are.  But it
  recognises the script by the fixed name \<open>organizer.py\<close>, and the file of the program is
  named \<open>Organizer.py\<close>: placed in the folder that it organizes, the program moves its own
  file to \<open>Others\<close>, like any file with an extension that it does not know.
\<close>

theorem organize_moves_program_file:
  "organize [''d''] repo_world = Inr repo_world_sorted \<and>
   lookup repo_world [''d'', ''Organizer.py''] = Some (File ''code'') \<and>
   lookup repo_world_sorted [''d'', ''Organizer.py''] = None \<and>
   lookup repo_world_sorted [''d'', ''Others'', ''Organizer.py''] = Some (File ''code'') \<and>
   is_dir repo_world_sorted [''d'', ''Sort_Logs'']"
proof -
  have "organize [''d''] repo_world = Inr repo_world_sorted" by code_simp
  moreover have "lookup repo_world [''d'', ''Organizer.py''] = Some (File ''code'')"
    "lookup repo_world_sorted [''d'', ''Organizer.py''] = None"
    "lookup repo_world_sorted [''d'', ''Others'', ''Organizer.py''] = Some (File ''code'')"
    "is_dir repo_world_sorted [''d'', ''Sort_Logs'']"
    by code_simp+
  ultimately show ?thesis by (intro conjI)
qed

section \<open>The undo file that organize writes\<close>

text \<open>What a run that returns has recorded.\<close>

lemma organize_ledger:
  assumes run: "organize SOURCE_FOLDER w = Inr w'" and dk: "distinct (map fst (fs w))"
  shows "\<exists>ms pre.
     lookup w' (UNDO_FILE SOURCE_FOLDER) = Some (File (concat (map ledger_line ms))) \<and>
     out w' = pre @ [Complete (length ms), UndoSaved] \<and>
     map snd ms = filter (eligible w) (children w SOURCE_FOLDER) \<and>
     distinct (map fst ms) \<and>
     (\<forall>m\<in>set ms. lookup w' (fst m) = lookup w (snd m))"
proof -
  let ?R = SOURCE_FOLDER
  let ?L = "LOG_FOLDER SOURCE_FOLDER" and ?U = "UNDO_FILE SOURCE_FOLDER"
  from organize_Inr [OF run] obtain w1 w2 w3 ms cc cc' w4 w5 w6 where
    w1: "mkdir ?L w = Inr w1" and w2: "log ?R (Starting ?R) w1 = Inr w2"
    and loop: "organize_loop ?R (children w2 ?R) (w2, [], []) = Inr (w3, ms, cc)"
    and rep: "report_empty ?R all_categories (cc, w3) = Inr (cc', w4)"
    and w5: "log ?R (Complete (sum_list (map snd cc'))) w4 = Inr w5"
    and w6: "write_text ?U (concat (map ledger_line ms)) w5 = Inr w6"
    and w': "log ?R UndoSaved w6 = Inr w'"
    by blast
  note st = organize_start [OF w1 w2]
  have dc: "distinct (children w2 ?R)" using st(6) [OF dk] by (rule distinct_children)
  have lv: "\<forall>i\<in>set (children w2 ?R). length i = length ?R + 1"
    by (simp add: children_length)
  from organize_loop_effect [OF loop dc lv]
  obtain new where new0: "ms = [] @ new \<and> organized ?R w2 w3 new \<and>
    map snd new = filter (eligible w2) (children w2 ?R) \<and>
    sum_list (map snd cc) = sum_list (map snd ([] :: counts)) + length new \<and>
    out w3 = out w2 @ map (\<lambda>m. Moved (name (snd m)) (category_of (snd m))) new" ..
  then have inv: "organized ?R w2 w3 ms"
    and srcs: "map snd ms = filter (eligible w) (children w ?R)"
    and total: "sum_list (map snd cc) = length ms"
    using st(5) by simp_all
  note r = report_empty_Inr [OF rep]
  note l5 = log_Inr [OF w5]
  note t = write_text_Inr [OF w6]
  note l7 = log_Inr [OF w']
  have after: "lookup w' q = (if q = ?U then Some (File (concat (map ledger_line ms)))
      else lookup w3 q)" if "\<not> is_log_file ?R q" for q
    using l7(1) [OF that] t(1) [of q] l5(1) [OF that] r(1) [OF that] by simp
  have 1: "lookup w' ?U = Some (File (concat (map ledger_line ms)))"
    using after [OF not_log_file_UNDO_FILE] by simp
  have 2: "out w' = out w4 @ [Complete (length ms), UndoSaved]"
    using l7(4) t(4) l5(4) r(5) total by simp
  have 5: "lookup w' (fst m) = lookup w (snd m)" if m: "m \<in> set ms" for m
  proof -
    note o = movedD [OF organized_moved [OF inv m]]
    from o(1) obtain x where x: "fst m = ?R @ [category_of (snd m), x]" by blast
    then have "fst m \<noteq> ?U"
      using destination_not_undo_file [of ?R "snd m" x] by simp
    moreover have "\<not> is_log_file ?R (fst m)"
      using organized_moved [OF inv m] by (rule not_log_file_moved)
    ultimately have "lookup w' (fst m) = lookup w3 (fst m)"
      using after [of "fst m"] by simp
    also have "\<dots> = lookup w2 (snd m)" by (rule o(3))
    also have "\<dots> = lookup w (snd m)"
    proof (rule st(1))
      from m have "snd m \<in> set (map snd ms)" by simp
      then have "snd m \<in> set (children w ?R)" unfolding srcs by simp
      then have len: "length (snd m) = length ?R + 1" by (rule children_length)
      then show "\<not> is_log_file ?R (snd m)" by (rule not_log_file_level)
      from o(4) st(2) show "snd m \<noteq> ?L"
        by (auto simp: eligible_def is_file_iff is_dir_iff)
    qed
    finally show ?thesis .
  qed
  from 1 2 srcs organized_fields(3) [OF inv] 5 show ?thesis by blast
qed




section \<open>Organizing and undoing\<close>

subsection \<open>The names that organize gives\<close>

lemma stem_suffix: "stem p @ suffix p = name p"
  by (simp add: stem_def suffix_def split: option.splits)

lemma str_nat_digits: "set (str_nat n) \<subseteq> set digit_chars"
proof (induction n rule: str_nat.induct)
  case (1 n)
  have d: "digit_chars ! k \<in> set digit_chars" if "k < 10" for k
    using that by (intro nth_mem) (simp add: digit_chars_def)
  show ?case
  proof (cases "n < 10")
    case True
    then show ?thesis using d [of n] by (subst str_nat.simps) simp
  next
    case False
    with "1.IH" d [of "n mod 10"] show ?thesis by (subst str_nat.simps) simp
  qed
qed

lemma renamed_chars:
  assumes "renamed item x"
  shows "set x \<subseteq> set (name item) \<union> {CHR ''_''} \<union> set digit_chars"
proof (cases "x = name item")
  case True
  then show ?thesis by auto
next
  case False
  with assms obtain N where x: "x = stem item @ ''_'' @ str_nat N @ suffix item"
    by (auto simp: renamed_def)
  have "set (stem item) \<subseteq> set (name item)" "set (suffix item) \<subseteq> set (name item)"
    using stem_suffix [of item, symmetric] by (simp_all only: set_append Un_upper1 Un_upper2)
  moreover have "set (str_nat N) \<subseteq> set digit_chars" by (rule str_nat_digits)
  ultimately show ?thesis unfolding x by auto
qed

lemma digits_plain: "\<forall>c\<in>set digit_chars. plain_char c \<and> c \<noteq> CHR ''/'' \<and> c \<noteq> CHR ''.''"
  by (simp add: digit_chars_def plain_char_def)

lemma renamed_plain:
  assumes "renamed item x" "list_all plain_char (name item)"
  shows "list_all plain_char x"
proof -
  have "plain_char c" if "c \<in> set x" for c
  proof -
    from renamed_chars [OF assms(1)] that
    have "c \<in> set (name item) \<or> c = CHR ''_'' \<or> c \<in> set digit_chars" by auto
    then show ?thesis
      using assms(2) digits_plain by (auto simp: list_all_iff plain_char_def)
  qed
  then show ?thesis by (simp add: list_all_iff)
qed

lemma renamed_valid:
  assumes "renamed item x" "valid_name (name item)"
  shows "valid_name x"
proof (cases "x = name item")
  case True
  with assms(2) show ?thesis by simp
next
  case False
  with assms(1) obtain N where x: "x = stem item @ ''_'' @ str_nat N @ suffix item"
    by (auto simp: renamed_def)
  then have u: "CHR ''_'' \<in> set x" by simp
  have "CHR ''/'' \<notin> set x"
  proof
    assume "CHR ''/'' \<in> set x"
    with renamed_chars [OF assms(1)]
    have "CHR ''/'' \<in> set (name item) \<or> CHR ''/'' \<in> set digit_chars" by auto
    with assms(2) digits_plain show False by (auto simp: valid_name_def)
  qed
  moreover from u have "x \<noteq> []" "x \<noteq> ''.''" "x \<noteq> ''..''" by auto
  ultimately show ?thesis by (simp add: valid_name_def)
qed

lemma categories_plain:
  "list_all (\<lambda>c. valid_name c \<and> list_all plain_char c) all_categories"
  by code_simp

lemma category_of_plain: "valid_name (category_of p)" "list_all plain_char (category_of p)"
proof -
  have "category_of p \<in> set all_categories"
    by (simp add: category_of_def get_category_in_all)
  with categories_plain show "valid_name (category_of p)" "list_all plain_char (category_of p)"
    by (auto simp: list_all_iff)
qed

subsection \<open>Reading the undo file back\<close>

lemma str_path_plain:
  assumes "list_all (list_all plain_char) p" "c \<in> set (str_path p)"
  shows "c \<noteq> CHR ''|''" and "c \<noteq> CHR 0x0A" and "c \<noteq> CHR 0x0D"
proof -
  from assms(2) have "c = CHR ''/'' \<or> (\<exists>n\<in>set p. c \<in> set n)"
    by (simp add: in_str_path)
  with assms(1) have "plain_char c"
    by (auto simp: list_all_iff plain_char_def)
  then show "c \<noteq> CHR ''|''" and "c \<noteq> CHR 0x0A" and "c \<noteq> CHR 0x0D"
    by (simp_all add: plain_char_def)
qed

lemma ledger_records_moves:
  assumes "\<forall>m\<in>set ms. list_all (list_all plain_char) (fst m) \<and>
      list_all (list_all plain_char) (snd m) \<and> \<not> isspace (last (str_path (snd m)))"
  shows "ledger_records (concat (map ledger_line ms)) =
         map (\<lambda>m. [str_path (fst m), str_path (snd m)]) ms"
  using assms
proof (induction ms)
  case Nil
  then show ?case by (simp add: ledger_records_Nil)
next
  case (Cons m ms)
  let ?a = "str_path (fst m)" and ?b = "str_path (snd m)"
  let ?s = "?a @ ''|'' @ ?b"
  from Cons.prems have pa: "list_all (list_all plain_char) (fst m)"
    and pb: "list_all (list_all plain_char) (snd m)"
    and sp: "\<not> isspace (last ?b)" by simp_all
  have nb: "\<forall>c\<in>set ?s. c \<noteq> CHR 0x0A \<and> c \<noteq> CHR 0x0D"
    using str_path_plain(2,3) [OF pa] str_path_plain(2,3) [OF pb] by auto
  have "?s \<noteq> []" by simp
  moreover have "\<not> isspace (hd ?s)"
    by (simp add: str_path_not_Nil hd_str_path not_isspace_slash)
  moreover have "\<not> isspace (last ?s)"
    using sp by (simp add: str_path_not_Nil)
  ultimately have "ledger_records (?s @ CHR 0x0A # concat (map ledger_line ms)) =
      split_once (CHR ''|'') ?s # ledger_records (concat (map ledger_line ms))"
    using nb by (intro ledger_records_Cons)
  moreover have "split_once (CHR ''|'') ?s = [?a, ?b]"
    using split_once_append [of "CHR ''|''" ?a ?b] str_path_plain(1) [OF pa] by auto
  moreover have "ledger_line m = ?s @ [CHR 0x0A]"
    by (cases m) (simp add: ledger_line_def)
  ultimately show ?case using Cons by simp
qed

subsection \<open>Moving the files back\<close>

lemma undo_records_moves:
  assumes "\<forall>m\<in>set ms. is_file w (fst m) \<and> lookup w (snd m) = None \<and> parent (snd m) = D \<and>
      Path (cwd w) (str_path (fst m)) = fst m \<and> Path (cwd w) (str_path (snd m)) = snd m"
    and "distinct (map fst ms)" and "distinct (map snd ms)"
    and "fst ` set ms \<inter> snd ` set ms = {}"
    and "is_dir w D" and "D \<notin> fst ` set ms" and "D \<notin> snd ` set ms"
    and "denied w = []"
  shows "\<exists>w'. undo_records (map (\<lambda>m. [str_path (fst m), str_path (snd m)]) ms) (w, n) =
       Inr (w', n + length ms) \<and>
     (\<forall>m\<in>set ms. lookup w' (snd m) = lookup w (fst m) \<and> lookup w' (fst m) = None) \<and>
     (\<forall>q. q \<notin> fst ` set ms \<and> q \<notin> snd ` set ms \<longrightarrow> lookup w' q = lookup w q) \<and>
     cwd w' = cwd w \<and> denied w' = denied w"
  using assms
proof (induction ms arbitrary: w n)
  case Nil
  then show ?case by simp
next
  case (Cons m ms)
  let ?enc = "\<lambda>m. [str_path (fst m), str_path (snd m)]"
  from Cons.prems(1) obtain c where c: "lookup w (fst m) = Some (File c)"
    and free: "lookup w (snd m) = None" and par: "parent (snd m) = D"
    and pa: "Path (cwd w) (str_path (fst m)) = fst m"
      "Path (cwd w) (str_path (snd m)) = snd m"
    by (auto simp: is_file_iff)
  from free have nd: "\<not> exists w (snd m)" by (simp add: exists_iff)
  from Cons.prems(5) par have pd: "is_dir w (parent (snd m))" by simp
  from Cons.prems(8) have dn: "fst m \<notin> set (denied w)" by simp
  from restore_file [OF c pd nd dn, of n] obtain w1 where
    w1: "restore (fst m) (snd m) (w, n) = Inr (w1, n + 1)"
    and l1: "\<And>q. lookup w1 q =
        (if q = snd m then Some (File c) else if q = fst m then None else lookup w q)"
    and f1: "cwd w1 = cwd w" "denied w1 = denied w"
    by auto
  have step: "undo_record (?enc m) (w, n) = Inr (w1, n + 1)"
    using w1 pa by (simp add: undo_record_def)
  have d: "fst m \<notin> fst ` set ms" "snd m \<notin> snd ` set ms"
    using Cons.prems(2,3) by (auto simp: image_iff)
  have x: "fst m \<notin> snd ` set ms" "snd m \<notin> fst ` set ms"
    using Cons.prems(4) by auto
  have pre1: "\<forall>m'\<in>set ms. is_file w1 (fst m') \<and> lookup w1 (snd m') = None \<and>
      parent (snd m') = D \<and> Path (cwd w1) (str_path (fst m')) = fst m' \<and>
      Path (cwd w1) (str_path (snd m')) = snd m'"
  proof
    fix m' assume m': "m' \<in> set ms"
    with Cons.prems(1) have o: "is_file w (fst m')" "lookup w (snd m') = None"
      "parent (snd m') = D" "Path (cwd w) (str_path (fst m')) = fst m'"
      "Path (cwd w) (str_path (snd m')) = snd m'"
      by simp_all
    from m' have "fst m' \<in> fst ` set ms" "snd m' \<in> snd ` set ms" by simp_all
    with d x have "fst m' \<noteq> fst m" "fst m' \<noteq> snd m" "snd m' \<noteq> snd m" by metis+
    with o l1 [of "fst m'"] l1 [of "snd m'"] f1
    show "is_file w1 (fst m') \<and> lookup w1 (snd m') = None \<and>
      parent (snd m') = D \<and> Path (cwd w1) (str_path (fst m')) = fst m' \<and>
      Path (cwd w1) (str_path (snd m')) = snd m'"
      by (simp add: is_file_iff)
  qed
  have D1: "is_dir w1 D"
    using Cons.prems(5,6,7) l1 [of D] by (auto simp: is_dir_iff)
  have "\<exists>w'. undo_records (map ?enc ms) (w1, n + 1) = Inr (w', n + 1 + length ms) \<and>
     (\<forall>m\<in>set ms. lookup w' (snd m) = lookup w1 (fst m) \<and> lookup w' (fst m) = None) \<and>
     (\<forall>q. q \<notin> fst ` set ms \<and> q \<notin> snd ` set ms \<longrightarrow> lookup w' q = lookup w1 q) \<and>
     cwd w' = cwd w1 \<and> denied w' = denied w1"
  proof (rule Cons.IH [OF pre1 _ _ _ D1])
    show "distinct (map fst ms)" "distinct (map snd ms)" using Cons.prems(2,3) by simp_all
    show "fst ` set ms \<inter> snd ` set ms = {}" using Cons.prems(4) by auto
    show "D \<notin> fst ` set ms" "D \<notin> snd ` set ms" using Cons.prems(6,7) by auto
    show "denied w1 = []" using f1 Cons.prems(8) by simp
  qed
  then obtain w' where
    run: "undo_records (map ?enc ms) (w1, n + 1) = Inr (w', n + 1 + length ms)"
    and mv: "\<And>m'. m' \<in> set ms \<Longrightarrow>
      lookup w' (snd m') = lookup w1 (fst m') \<and> lookup w' (fst m') = None"
    and fr: "\<And>q. q \<notin> fst ` set ms \<Longrightarrow> q \<notin> snd ` set ms \<Longrightarrow> lookup w' q = lookup w1 q"
    and f': "cwd w' = cwd w1" "denied w' = denied w1"
    by blast
  have 1: "undo_records (map ?enc (m # ms)) (w, n) = Inr (w', n + length (m # ms))"
    using step run by simp
  have 2: "lookup w' (snd m') = lookup w (fst m') \<and> lookup w' (fst m') = None"
    if "m' \<in> set (m # ms)" for m'
  proof (cases "m' = m")
    case True
    from Cons.prems(4) have "fst m \<noteq> snd m" by auto
    with True fr [of "snd m"] fr [of "fst m"] d x l1 [of "snd m"] l1 [of "fst m"] c
    show ?thesis by simp
  next
    case False
    with that have m': "m' \<in> set ms" by simp
    then have "fst m' \<in> fst ` set ms" by simp
    with d x have "fst m' \<noteq> fst m" "fst m' \<noteq> snd m" by metis+
    with mv [OF m'] l1 [of "fst m'"] show ?thesis by simp
  qed
  have 3: "lookup w' q = lookup w q"
    if "q \<notin> fst ` set (m # ms)" "q \<notin> snd ` set (m # ms)" for q
  proof -
    from that have "q \<noteq> fst m" "q \<noteq> snd m" "q \<notin> fst ` set ms" "q \<notin> snd ` set ms"
      by auto
    with fr [of q] l1 [of q] show ?thesis by simp
  qed
  from 1 2 3 f' f1 show ?case by (intro exI [of _ w']) simp
qed

subsection \<open>Organizing a folder whose moves are all permitted\<close>

lemma child_of: "p \<in> set (children w d) \<Longrightarrow> p = d @ [name p]"
  unfolding set_children
  by (cases p rule: rev_cases) (auto simp: parent_def name_def)

lemma organize_total:
  assumes ts: "tree_shaped w" and dir: "is_dir w SOURCE_FOLDER" and dn: "denied w = []"
    and lg: "\<not> is_file w (LOG_FOLDER SOURCE_FOLDER)" "\<not> is_dir w (UNDO_FILE SOURCE_FOLDER)"
    and ls: "loggable SOURCE_FOLDER w"
    and nm: "\<forall>p\<in>set (children w SOURCE_FOLDER). eligible w p \<longrightarrow> name p \<notin> set all_categories"
  shows "\<exists>wa ms. organize SOURCE_FOLDER w = Inr wa \<and>
     lookup wa (UNDO_FILE SOURCE_FOLDER) = Some (File (concat (map ledger_line ms))) \<and>
     map snd ms = filter (eligible w) (children w SOURCE_FOLDER) \<and>
     distinct (map fst ms) \<and>
     (\<forall>m\<in>set ms.
        (\<exists>x. fst m = SOURCE_FOLDER @ [category_of (snd m), x] \<and> renamed (snd m) x) \<and>
        lookup w (fst m) = None \<and> lookup wa (fst m) = lookup w (snd m) \<and>
        lookup wa (snd m) = None \<and> is_dir wa (SOURCE_FOLDER @ [category_of (snd m)])) \<and>
     (\<forall>q. q \<notin> fst ` set ms \<and> q \<notin> snd ` set ms \<and>
          (\<forall>m\<in>set ms. q \<noteq> SOURCE_FOLDER @ [category_of (snd m)]) \<and>
          q \<noteq> LOG_FOLDER SOURCE_FOLDER \<and> q \<noteq> UNDO_FILE SOURCE_FOLDER \<and>
          \<not> is_log_file SOURCE_FOLDER q \<longrightarrow>
          lookup wa q = lookup w q) \<and>
     is_dir wa (LOG_FOLDER SOURCE_FOLDER) \<and> cwd wa = cwd w \<and> denied wa = []"
proof -
  let ?R = SOURCE_FOLDER
  let ?L = "LOG_FOLDER SOURCE_FOLDER" and ?U = "UNDO_FILE SOURCE_FOLDER"
  have lenL: "length ?L = length ?R + 1" and lenU: "length ?U = length ?R + 2"
    by (simp_all add: LOG_FOLDER_def UNDO_FILE_def)
  have nlU: "\<not> is_log_file ?R ?U" by (rule not_log_file_UNDO_FILE)
  have nlL: "\<not> is_log_file ?R ?L" using lenL by (rule not_log_file_level)
  have nlR: "\<not> is_log_file ?R ?R" using is_log_file_length [of ?R ?R] by auto
  have nlc: "\<not> is_log_file ?R (?R @ [c])" for c by (rule not_log_file_level) simp
  from ls have ls0: "\<forall>q. is_log_file ?R q \<longrightarrow> \<not> is_dir w q" by (simp add: loggable_iff)
  \<comment> \<open>the log folder and the first line of the log\<close>
  from organize_start_ok [OF dir lg(1) ls0] obtain w1 w2 where
    w1: "mkdir ?L w = Inr w1" and w2: "log ?R (Starting ?R) w1 = Inr w2" by blast
  note st = organize_start [OF w1 w2]
  have l2: "lookup w2 q = lookup w q" if "q \<noteq> ?L" "\<not> is_log_file ?R q" for q
    using that by (rule st(1))
  have L2: "is_dir w2 ?L" by (rule st(2))
  have RL: "?R \<noteq> ?L" by (simp add: LOG_FOLDER_def)
  have R2: "is_dir w2 ?R" using l2 [OF RL nlR] dir by (simp add: is_dir_iff)
  have ls2: "\<forall>q. is_log_file ?R q \<longrightarrow> \<not> is_dir w2 q"
  proof (intro allI impI)
    fix q assume q: "is_log_file ?R q"
    from st(3) [OF q] ls0 q show "\<not> is_dir w2 q" by (auto simp: is_dir_iff is_file_iff)
  qed
  from ts have dk: "distinct (map fst (fs w))" by (simp add: tree_shaped_def)
  let ?items = "children w2 ?R"
  have dc: "distinct ?items" using st(6) [OF dk] by (rule distinct_children)
  have lv: "\<forall>i\<in>set ?items. length i = length ?R + 1" by (simp add: children_length)
  \<comment> \<open>no category name is a file of the folder\<close>
  have nofile: "\<not> is_file w (?R @ [c])" if "c \<in> set all_categories" for c
  proof
    assume f: "is_file w (?R @ [c])"
    then have "?R @ [c] \<in> set (children w ?R)"
      unfolding set_children by (auto simp: parent_def is_file_iff)
    moreover from that have "c \<noteq> ''organizer.py''" by (auto simp: all_categories_def)
    with f have "eligible w (?R @ [c])" by (simp add: eligible_def name_def)
    ultimately have "name (?R @ [c]) \<notin> set all_categories" using nm by blast
    with that show False by (simp add: name_def)
  qed
  have nofile2: "\<forall>c\<in>set all_categories. \<not> is_file w2 (?R @ [c])"
  proof
    fix c assume c: "c \<in> set all_categories"
    then have "c \<noteq> ''Sort_Logs''" by (rule category_neq_Sort_Logs)
    then have "?R @ [c] \<noteq> ?L" by (simp add: LOG_FOLDER_def)
    then have "lookup w2 (?R @ [c]) = lookup w (?R @ [c])"
      using nlc by (rule l2)
    with nofile [OF c] show "\<not> is_file w2 (?R @ [c])" by (simp add: is_file_iff)
  qed
  \<comment> \<open>the loop\<close>
  have "\<exists>w3 ms cc. organize_loop ?R ?items (w2, [], []) = Inr (w3, ms, cc)"
  proof (rule organize_loop_succeeds [OF dc lv R2 _ nofile2 L2 ls2])
    show "\<forall>i\<in>set ?items. eligible w2 i \<longrightarrow> i \<notin> set (denied w2)"
      using st(8) dn by simp
  qed
  then obtain w3 ms cc where
    loop: "organize_loop ?R ?items (w2, [], []) = Inr (w3, ms, cc)" by blast
  from organize_loop_effect [OF loop dc lv]
  obtain new where new0: "ms = [] @ new \<and> organized ?R w2 w3 new \<and>
    map snd new = filter (eligible w2) ?items \<and>
    sum_list (map snd cc) = sum_list (map snd ([] :: counts)) + length new \<and>
    out w3 = out w2 @ map (\<lambda>m. Moved (name (snd m)) (category_of (snd m))) new" ..
  then have inv: "organized ?R w2 w3 ms"
    and srcs: "map snd ms = filter (eligible w) (children w ?R)"
    using st(5) by simp_all
  note mv = organized_moved [OF inv]
  have src: "snd m \<in> set (children w ?R)" "eligible w (snd m)" if "m \<in> set ms" for m
  proof -
    from that have "snd m \<in> set (map snd ms)" by simp
    then show "snd m \<in> set (children w ?R)" "eligible w (snd m)"
      unfolding srcs by simp_all
  qed
  have src_len: "length (snd m) = length ?R + 1" if "m \<in> set ms" for m
    using src(1) [OF that] by (rule children_length)
  have dst_len: "length (fst m) = length ?R + 2" if "m \<in> set ms" for m
    using mv [OF that] by (rule moved_length)
  have src_cat: "snd m \<noteq> ?R @ [c]" if "m \<in> set ms" "c \<in> set all_categories" for m c
  proof
    assume "snd m = ?R @ [c]"
    then have "name (snd m) = c" by (simp add: name_def)
    with nm src [OF that(1)] that(2) show False by auto
  qed
  have dst_U: "fst m \<noteq> ?U" if m: "m \<in> set ms" for m
  proof -
    from movedD(1) [OF mv [OF m]] obtain x where "fst m = ?R @ [category_of (snd m), x]"
      by blast
    then show ?thesis using destination_not_undo_file [of ?R "snd m" x] by simp
  qed
  \<comment> \<open>paths that the loop leaves alone\<close>
  have U3: "lookup w3 ?U = lookup w ?U"
  proof -
    have "lookup w3 ?U = lookup w2 ?U"
      using inv
    proof (rule organized_frame)
      show "?U \<notin> fst ` set ms" using dst_U by force
      show "?U \<notin> snd ` set ms"
      proof
        assume "?U \<in> snd ` set ms"
        then obtain m where "m \<in> set ms" "?U = snd m" by auto
        with src_len [of m] lenU show False by simp
      qed
      show "\<forall>m\<in>set ms. ?U \<noteq> ?R @ [category_of (snd m)]"
        by (simp add: UNDO_FILE_def LOG_FOLDER_def)
      show "\<not> is_log_file ?R ?U" by (rule nlU)
    qed
    also have "\<dots> = lookup w ?U" using nlU by (intro l2) (simp add: UNDO_FILE_def)
    finally show ?thesis .
  qed
  have L3: "is_dir w3 ?L"
    using inv L2
  proof (rule organized_log_folder)
    show "\<forall>m\<in>set ms. length (snd m) = length ?R + 1" using src_len by blast
  qed
  have ls3: "\<forall>q. is_log_file ?R q \<longrightarrow> \<not> is_dir w3 q"
  proof (intro allI impI)
    fix q assume q: "is_log_file ?R q"
    from organized_log [OF inv q] ls2 q show "\<not> is_dir w3 q"
      by (auto simp: is_dir_iff is_file_iff)
  qed
  \<comment> \<open>the report\<close>
  from report_empty_ok [OF L3 ls3] obtain cc' w4 where
    rep: "report_empty ?R all_categories (cc, w3) = Inr (cc', w4)" by blast
  note r = report_empty_Inr [OF rep]
  have L4: "is_dir w4 ?L" using r(1) [OF nlL] L3 by (simp add: is_dir_iff)
  have ls4: "\<forall>q. is_log_file ?R q \<longrightarrow> \<not> is_dir w4 q"
  proof (intro allI impI)
    fix q assume q: "is_log_file ?R q"
    from r(6) [of q] ls3 q show "\<not> is_dir w4 q" by (auto simp: is_dir_iff is_file_iff)
  qed
  from log_ok [OF L4 ls4] obtain w5 where
    w5: "log ?R (Complete (sum_list (map snd cc'))) w4 = Inr w5" by blast
  note l5 = log_Inr [OF w5]
  have L5: "is_dir w5 ?L" using l5(1) [OF nlL] L4 by (simp add: is_dir_iff)
  have ls5: "\<forall>q. is_log_file ?R q \<longrightarrow> \<not> is_dir w5 q"
  proof (intro allI impI)
    fix q assume q: "is_log_file ?R q"
    from l5(5) [of q] ls4 q show "\<not> is_dir w5 q" by (auto simp: is_dir_iff is_file_iff)
  qed
  \<comment> \<open>the undo file\<close>
  have "\<exists>w6. write_text ?U (concat (map ledger_line ms)) w5 = Inr w6"
  proof (rule write_text_ok)
    show "\<not> is_dir w5 ?U"
      using l5(1) [OF nlU] r(1) [OF nlU] U3 lg(2) by (simp add: is_dir_iff)
    have "parent ?U = ?L" by (simp add: parent_def UNDO_FILE_def)
    then show "is_dir w5 (parent ?U)" using L5 by simp
  qed
  then obtain w6 where w6: "write_text ?U (concat (map ledger_line ms)) w5 = Inr w6"
    by blast
  note t = write_text_Inr [OF w6]
  have LU: "?L \<noteq> ?U" by (simp add: UNDO_FILE_def LOG_FOLDER_def)
  have L6: "is_dir w6 ?L" using t(1) [of ?L] LU L5 by (simp add: is_dir_iff)
  have ls6: "\<forall>q. is_log_file ?R q \<longrightarrow> \<not> is_dir w6 q"
  proof (intro allI impI)
    fix q assume q: "is_log_file ?R q"
    with nlU have "q \<noteq> ?U" by auto
    with t(1) [of q] ls5 q show "\<not> is_dir w6 q" by (simp add: is_dir_iff)
  qed
  from log_ok [OF L6 ls6] obtain wa where wa: "log ?R UndoSaved w6 = Inr wa" by blast
  note l7 = log_Inr [OF wa]
  have run: "organize ?R w = Inr wa"
    using organize_InrI [OF w1 w2 R2 loop rep w5 w6] wa by simp
  have la: "lookup wa q = lookup w3 q" if "q \<noteq> ?U" "\<not> is_log_file ?R q" for q
    using l7(1) [OF that(2)] t(1) [of q] l5(1) [OF that(2)] r(1) [OF that(2)] that(1) by simp
  have 1: "lookup wa ?U = Some (File (concat (map ledger_line ms)))"
    using l7(1) [OF nlU] t(1) [of ?U] by simp
  have 2: "(\<exists>x. fst m = ?R @ [category_of (snd m), x] \<and> renamed (snd m) x) \<and>
        lookup w (fst m) = None \<and> lookup wa (fst m) = lookup w (snd m) \<and>
        lookup wa (snd m) = None \<and> is_dir wa (?R @ [category_of (snd m)])"
    if m: "m \<in> set ms" for m
  proof -
    note o = movedD [OF mv [OF m]]
    have a: "fst m \<noteq> ?U" using m by (rule dst_U)
    have a': "\<not> is_log_file ?R (fst m)" using mv [OF m] by (rule not_log_file_moved)
    have b: "fst m \<noteq> ?L" using dst_len [OF m] lenL by auto
    have c: "snd m \<noteq> ?U" using src_len [OF m] lenU by auto
    have c': "\<not> is_log_file ?R (snd m)" using src_len [OF m] by (rule not_log_file_level)
    have d: "snd m \<noteq> ?L" using o(4) L2 by (auto simp: eligible_def is_file_iff is_dir_iff)
    have "lookup w (fst m) = None" using o(2) l2 [OF b a'] by simp
    moreover have "lookup wa (fst m) = lookup w (snd m)"
      using la [OF a a'] o(3) l2 [OF d c'] by simp
    moreover have "lookup w3 (snd m) = None"
    proof (rule o(7))
      show "\<forall>m2\<in>set ms. snd m \<noteq> ?R @ [category_of (snd m2)]"
        using src_cat [OF m] category_of_in_all by blast
    qed
    then have "lookup wa (snd m) = None" using la [OF c c'] by simp
    moreover have "?R @ [category_of (snd m)] \<noteq> ?U"
      by (simp add: UNDO_FILE_def LOG_FOLDER_def)
    then have "is_dir wa (?R @ [category_of (snd m)])"
      using o(5) la [of "?R @ [category_of (snd m)]"] nlc by (simp add: is_dir_iff)
    ultimately show ?thesis using o(1) by blast
  qed
  have 3: "lookup wa q = lookup w q"
    if "q \<notin> fst ` set ms" "q \<notin> snd ` set ms"
      "\<forall>m\<in>set ms. q \<noteq> ?R @ [category_of (snd m)]" "q \<noteq> ?L" "q \<noteq> ?U"
      "\<not> is_log_file ?R q" for q
  proof -
    have "lookup wa q = lookup w3 q" using that(5,6) by (rule la)
    also have "\<dots> = lookup w2 q" using inv that(1,2,3,6) by (rule organized_frame)
    also have "\<dots> = lookup w q" using that(4,6) by (rule l2)
    finally show ?thesis .
  qed
  have 4: "is_dir wa ?L"
    using la [OF LU nlL] L3 by (simp add: is_dir_iff)
  have 5: "cwd wa = cwd w" "denied wa = []"
    using l7(2,3) t(2,3) l5(2,3) r(2,3) organized_fields(1,2) [OF inv] st(7,8) dn by simp_all
  from run 1 srcs organized_fields(3) [OF inv] 2 3 4 5 show ?thesis
    by (intro exI [of _ wa] exI [of _ ms]) blast
qed

subsection \<open>Undoing what the undo file records\<close>

lemma undo_restores:
  assumes led: "lookup wa (UNDO_FILE SOURCE_FOLDER) = Some (File (concat (map ledger_line ms)))"
    and mvs: "\<And>m. m \<in> set ms \<Longrightarrow>
        (\<exists>x. fst m = SOURCE_FOLDER @ [category_of (snd m), x] \<and> renamed (snd m) x) \<and>
        lookup w (fst m) = None \<and> lookup wa (fst m) = lookup w (snd m) \<and>
        lookup wa (snd m) = None \<and> is_dir wa (SOURCE_FOLDER @ [category_of (snd m)])"
    and srcs: "\<And>m. m \<in> set ms \<Longrightarrow>
        is_file w (snd m) \<and> parent (snd m) = SOURCE_FOLDER \<and> list_all valid_name (snd m) \<and>
        list_all (list_all plain_char) (snd m) \<and> \<not> isspace (last (name (snd m))) \<and>
        name (snd m) \<notin> set all_categories"
    and d1: "distinct (map fst ms)" and d2: "distinct (map snd ms)"
    and frame: "\<And>q. q \<notin> fst ` set ms \<Longrightarrow> q \<notin> snd ` set ms \<Longrightarrow>
        \<forall>m\<in>set ms. q \<noteq> SOURCE_FOLDER @ [category_of (snd m)] \<Longrightarrow>
        q \<noteq> LOG_FOLDER SOURCE_FOLDER \<Longrightarrow> q \<noteq> UNDO_FILE SOURCE_FOLDER \<Longrightarrow>
        \<not> is_log_file SOURCE_FOLDER q \<Longrightarrow> lookup wa q = lookup w q"
    and logdir: "is_dir wa (LOG_FOLDER SOURCE_FOLDER)" and dn: "denied wa = []"
    and dir: "is_dir w SOURCE_FOLDER"
    and nofile: "\<And>c. c \<in> set all_categories \<Longrightarrow> \<not> is_file w (SOURCE_FOLDER @ [c])"
    and tree: "\<And>k. k \<noteq> [] \<Longrightarrow> lookup w k \<noteq> None \<Longrightarrow> is_dir w (parent k)"
  shows "\<exists>w2. undo SOURCE_FOLDER wa = Inr w2 \<and>
     (\<forall>q. q \<noteq> LOG_FOLDER SOURCE_FOLDER \<and> q \<noteq> UNDO_FILE SOURCE_FOLDER \<and>
          \<not> is_log_file SOURCE_FOLDER q \<and>
          (\<forall>c\<in>set all_categories. q \<noteq> SOURCE_FOLDER @ [c]) \<longrightarrow> lookup w2 q = lookup w q) \<and>
     (\<forall>c\<in>set all_categories. lookup w2 (SOURCE_FOLDER @ [c]) =
          (if children w (SOURCE_FOLDER @ [c]) = [] then None else Some Dir)) \<and>
     lookup w2 (LOG_FOLDER SOURCE_FOLDER) = Some Dir \<and>
     lookup w2 (UNDO_FILE SOURCE_FOLDER) = None"
proof -
  let ?R = SOURCE_FOLDER
  let ?L = "LOG_FOLDER SOURCE_FOLDER" and ?U = "UNDO_FILE SOURCE_FOLDER"
  let ?enc = "\<lambda>m. [str_path (fst m), str_path (snd m)]"
  have lenL: "length ?L = length ?R + 1" and lenU: "length ?U = length ?R + 2"
    by (simp_all add: LOG_FOLDER_def UNDO_FILE_def)
  have LU: "?L \<noteq> ?U" by (simp add: UNDO_FILE_def LOG_FOLDER_def)
  have parL: "parent ?L = ?R" by (simp add: parent_def LOG_FOLDER_def)
  have parU: "parent ?U = ?L" by (simp add: parent_def UNDO_FILE_def)
  have cat_in: "category_of p \<in> set all_categories" for p
    by (simp add: category_of_def get_category_in_all)
  have nlR: "\<not> is_log_file ?R ?R" using is_log_file_length [of ?R ?R] by auto
  have nlc: "\<not> is_log_file ?R (?R @ [c])" for c by (rule not_log_file_level) simp
  \<comment> \<open>the shape of the recorded paths\<close>
  have src: "snd m = ?R @ [name (snd m)]" "length (snd m) = length ?R + 1" "snd m \<noteq> []"
    if "m \<in> set ms" for m
  proof -
    from srcs [OF that] have "is_file w (snd m)" "parent (snd m) = ?R" by simp_all
    then show "snd m = ?R @ [name (snd m)]" "snd m \<noteq> []"
      by (cases "snd m" rule: rev_cases; auto simp: parent_def name_def is_file_iff)+
    then show "length (snd m) = length ?R + 1"
      by (metis length_append_singleton Suc_eq_plus1)
  qed
  have dst_len: "length (fst m) = length ?R + 2" if "m \<in> set ms" for m
    using mvs [OF that] by auto
  have fst_neq: "fst m \<noteq> ?R @ [c]" "fst m \<noteq> ?L" "fst m \<noteq> ?U" "fst m \<noteq> ?R"
    if "m \<in> set ms" for m c
  proof -
    show "fst m \<noteq> ?R @ [c]" "fst m \<noteq> ?L" "fst m \<noteq> ?R"
      using dst_len [OF that] lenL by auto
    from mvs [OF that] destination_not_undo_file show "fst m \<noteq> ?U" by metis
  qed
  have snd_neq: "snd m \<noteq> ?U" "snd m \<noteq> ?R" "snd m \<noteq> ?L"
    "c \<in> set all_categories \<Longrightarrow> snd m \<noteq> ?R @ [c]"
    if "m \<in> set ms" for m c
  proof -
    show "snd m \<noteq> ?U" "snd m \<noteq> ?R" using src(2) [OF that] lenU by auto
    show "snd m \<noteq> ?L"
      using mvs [OF that] logdir by (auto simp: is_dir_iff)
    show "snd m \<noteq> ?R @ [c]" if "c \<in> set all_categories"
    proof
      assume "snd m = ?R @ [c]"
      then have "name (snd m) = c" by (simp add: name_def)
      with srcs [OF \<open>m \<in> set ms\<close>] that show False by simp
    qed
  qed
  have names: "list_all valid_name (fst m)" "list_all (list_all plain_char) (fst m)"
    "\<not> isspace (last (str_path (snd m)))"
    if m: "m \<in> set ms" for m
  proof -
    from mvs [OF m] obtain x where
      x: "fst m = ?R @ [category_of (snd m), x]" "renamed (snd m) x" by blast
    from srcs [OF m] have v: "list_all valid_name (snd m)"
      and p: "list_all (list_all plain_char) (snd m)"
      and s: "\<not> isspace (last (name (snd m)))" by simp_all
    from v p have "list_all valid_name (?R @ [name (snd m)])"
      "list_all (list_all plain_char) (?R @ [name (snd m)])"
      using src(1) [OF m] by simp_all
    then have R: "list_all valid_name ?R" "list_all (list_all plain_char) ?R"
      and n: "valid_name (name (snd m))" "list_all plain_char (name (snd m))" by simp_all
    have "valid_name x" "list_all plain_char x"
      using renamed_valid [OF x(2) n(1)] renamed_plain [OF x(2) n(2)] by simp_all
    with R category_of_plain [of "snd m"]
    show "list_all valid_name (fst m)" "list_all (list_all plain_char) (fst m)"
      unfolding x(1) by simp_all
    from n(1) have "last (snd m) \<noteq> []"
      using src(3) [OF m] by (simp add: name_def valid_name_def)
    with src(3) [OF m] have "last (str_path (snd m)) = last (last (snd m))"
      by (rule last_str_path)
    with s src(3) [OF m] show "\<not> isspace (last (str_path (snd m)))"
      by (simp add: name_def)
  qed
  \<comment> \<open>reading the file\<close>
  let ?w1 = "print Undoing wa"
  have rd: "read_text ?U ?w1 = Inr (concat (map ledger_line ms))"
    using led by (intro read_text_file) simp
  have recs: "ledger_records (concat (map ledger_line ms)) = map ?enc ms"
    using names(2,3) srcs by (intro ledger_records_moves) blast
  \<comment> \<open>moving the files back\<close>
  have dirR: "is_dir ?w1 ?R"
  proof -
    have "lookup wa ?R = lookup w ?R"
    proof (rule frame)
      show "?R \<notin> fst ` set ms" using fst_neq(4) by auto
      show "?R \<notin> snd ` set ms" using snd_neq(2) by auto
      show "\<forall>m\<in>set ms. ?R \<noteq> ?R @ [category_of (snd m)]" by simp
      show "?R \<noteq> ?L" "?R \<noteq> ?U" using lenL lenU by auto
      show "\<not> is_log_file ?R ?R" by (rule nlR)
    qed
    with dir show ?thesis by (simp add: is_dir_iff)
  qed
  have "\<exists>w'. undo_records (map ?enc ms) (?w1, 0) = Inr (w', 0 + length ms) \<and>
     (\<forall>m\<in>set ms. lookup w' (snd m) = lookup ?w1 (fst m) \<and> lookup w' (fst m) = None) \<and>
     (\<forall>q. q \<notin> fst ` set ms \<and> q \<notin> snd ` set ms \<longrightarrow> lookup w' q = lookup ?w1 q) \<and>
     cwd w' = cwd ?w1 \<and> denied w' = denied ?w1"
  proof (rule undo_records_moves [where D = ?R])
    show "\<forall>m\<in>set ms. is_file ?w1 (fst m) \<and> lookup ?w1 (snd m) = None \<and> parent (snd m) = ?R \<and>
      Path (cwd ?w1) (str_path (fst m)) = fst m \<and> Path (cwd ?w1) (str_path (snd m)) = snd m"
    proof
      fix m assume m: "m \<in> set ms"
      from mvs [OF m] srcs [OF m] have "is_file ?w1 (fst m)" "lookup ?w1 (snd m) = None"
        "parent (snd m) = ?R" by (simp_all add: is_file_iff)
      moreover have "Path (cwd ?w1) (str_path (fst m)) = fst m"
        using names(1) [OF m] by (intro Path_str_path) (simp add: list_all_iff)
      moreover have "Path (cwd ?w1) (str_path (snd m)) = snd m"
        using srcs [OF m] by (intro Path_str_path) (simp add: list_all_iff)
      ultimately show "is_file ?w1 (fst m) \<and> lookup ?w1 (snd m) = None \<and>
        parent (snd m) = ?R \<and> Path (cwd ?w1) (str_path (fst m)) = fst m \<and>
        Path (cwd ?w1) (str_path (snd m)) = snd m" by simp
    qed
    show "distinct (map fst ms)" "distinct (map snd ms)" by (rule d1, rule d2)
    show "fst ` set ms \<inter> snd ` set ms = {}"
    proof (rule ccontr)
      assume "fst ` set ms \<inter> snd ` set ms \<noteq> {}"
      then obtain m m' where "m \<in> set ms" "m' \<in> set ms" "fst m = snd m'" by auto
      with dst_len [of m] src(2) [of m'] show False by simp
    qed
    show "is_dir ?w1 ?R" by (rule dirR)
    show "?R \<notin> fst ` set ms" using fst_neq(4) by auto
    show "?R \<notin> snd ` set ms" using snd_neq(2) by auto
    show "denied ?w1 = []" using dn by simp
  qed
  then obtain w2 where
    w2: "undo_records (map ?enc ms) (?w1, 0) = Inr (w2, 0 + length ms) \<and>
     (\<forall>m\<in>set ms. lookup w2 (snd m) = lookup ?w1 (fst m) \<and> lookup w2 (fst m) = None) \<and>
     (\<forall>q. q \<notin> fst ` set ms \<and> q \<notin> snd ` set ms \<longrightarrow> lookup w2 q = lookup ?w1 q) \<and>
     cwd w2 = cwd ?w1 \<and> denied w2 = denied ?w1" ..
  then have run2: "undo_records (map ?enc ms) (?w1, 0) = Inr (w2, length ms)" by simp
  have restored: "lookup w2 (snd m) = lookup wa (fst m) \<and> lookup w2 (fst m) = None"
    if "m \<in> set ms" for m
    using w2 that by simp
  have rest: "lookup w2 q = lookup wa q" if "q \<notin> fst ` set ms" "q \<notin> snd ` set ms" for q
    using w2 that by simp
  have F: "lookup w2 q = lookup w q"
    if q: "q \<noteq> ?L" "q \<noteq> ?U" "\<forall>c\<in>set all_categories. q \<noteq> ?R @ [c]"
      "\<not> is_log_file ?R q" for q
  proof (cases "q \<in> snd ` set ms")
    case True
    then obtain m where m: "m \<in> set ms" "q = snd m" by auto
    with restored [OF m(1)] mvs [OF m(1)] show ?thesis by simp
  next
    case ns: False
    show ?thesis
    proof (cases "q \<in> fst ` set ms")
      case True
      then obtain m where m: "m \<in> set ms" "q = fst m" by auto
      with restored [OF m(1)] mvs [OF m(1)] show ?thesis by simp
    next
      case False
      then have "lookup w2 q = lookup wa q" using ns by (rule rest)
      also have "\<dots> = lookup w q"
        using False ns _ q(1,2,4)
      proof (rule frame)
        show "\<forall>m\<in>set ms. q \<noteq> ?R @ [category_of (snd m)]" using q(3) cat_in by blast
      qed
      finally show ?thesis .
    qed
  qed
  have G: "lookup w2 (?R @ [c]) = lookup wa (?R @ [c])" if "c \<in> set all_categories" for c
  proof (rule rest)
    show "?R @ [c] \<notin> fst ` set ms" using fst_neq(1) [of _ c] by force
    show "?R @ [c] \<notin> snd ` set ms" using snd_neq(4) [OF _ that] by force
  qed
  have H: "(lookup wa (?R @ [c]) = lookup w (?R @ [c]) \<or> is_dir wa (?R @ [c])) \<and>
      \<not> is_file wa (?R @ [c])"
    if c: "c \<in> set all_categories" for c
  proof (cases "\<exists>m\<in>set ms. ?R @ [c] = ?R @ [category_of (snd m)]")
    case True
    then obtain m where m: "m \<in> set ms" "?R @ [c] = ?R @ [category_of (snd m)]" by blast
    from mvs [OF m(1)] m(2) have "is_dir wa (?R @ [c])" by simp
    then show ?thesis by (simp add: is_dir_iff is_file_iff)
  next
    case False
    have "lookup wa (?R @ [c]) = lookup w (?R @ [c])"
    proof (rule frame)
      show "?R @ [c] \<notin> fst ` set ms" using fst_neq(1) [of _ c] by force
      show "?R @ [c] \<notin> snd ` set ms" using snd_neq(4) [OF _ c] by force
      show "\<forall>m\<in>set ms. ?R @ [c] \<noteq> ?R @ [category_of (snd m)]" using False by blast
      show "?R @ [c] \<noteq> ?L" using category_neq_Sort_Logs [OF c] by (simp add: LOG_FOLDER_def)
      show "?R @ [c] \<noteq> ?U" by (simp add: UNDO_FILE_def LOG_FOLDER_def)
      show "\<not> is_log_file ?R (?R @ [c])" by (rule nlc)
    qed
    with nofile [OF c] show ?thesis by (simp add: is_file_iff)
  qed
  \<comment> \<open>removing the empty category folders\<close>
  have "\<forall>c\<in>set all_categories. \<not> is_file w2 (?R @ [c])"
    using G H by (simp add: is_file_iff)
  from remove_empty_folders_effect [OF this]
  obtain w3 where run3: "remove_empty_folders ?R all_categories w2 = Inr w3"
    and l3: "\<And>q. lookup w3 q =
        (if (\<exists>c\<in>set all_categories. q = ?R @ [c]) \<and> is_dir w2 q \<and> children w2 q = []
         then None else lookup w2 q)"
    and d3: "denied w3 = denied w2"
    by blast
  have K: "children w2 (?R @ [c]) = [] \<longleftrightarrow> children w (?R @ [c]) = []"
    if c: "c \<in> set all_categories" for c
  proof -
    have "lookup w2 k = lookup w k" if k: "parent k = ?R @ [c]" for k
    proof (rule F)
      show "k \<noteq> ?L" using k parL by auto
      show "k \<noteq> ?U" using k parU category_neq_Sort_Logs [OF c] by (auto simp: LOG_FOLDER_def)
      show "\<forall>c'\<in>set all_categories. k \<noteq> ?R @ [c']" using k by (auto simp: parent_def)
      show "\<not> is_log_file ?R k"
        using k category_neq_Sort_Logs [OF c] by (auto simp: is_log_file_def LOG_FOLDER_def)
    qed
    then show ?thesis unfolding children_Nil_iff by auto
  qed
  \<comment> \<open>deleting the undo file\<close>
  have U2: "lookup w2 ?U = lookup wa ?U"
  proof (rule rest)
    show "?U \<notin> fst ` set ms" using fst_neq(3) by force
    show "?U \<notin> snd ` set ms" using snd_neq(1) by force
  qed
  have notcat: "\<not> (\<exists>c\<in>set all_categories. ?U = ?R @ [c])" "\<not> (\<exists>c\<in>set all_categories. ?L = ?R @ [c])"
    using category_neq_Sort_Logs by (auto simp: UNDO_FILE_def LOG_FOLDER_def)
  have "is_file w3 ?U" using l3 [of ?U] notcat(1) U2 led by (simp add: is_file_iff)
  moreover have "?U \<notin> set (denied w3)" using d3 w2 dn by simp
  ultimately obtain w4 where run4: "unlink ?U w3 = Inr w4" using unlink_file by blast
  note u = unlink_Inr [OF run4]
  let ?w5 = "print (UndoComplete (length ms)) w4"
  have ex: "exists wa ?U" using led by (simp add: exists_iff)
  have run: "undo ?R wa = Inr ?w5"
    unfolding undo_def using ex rd recs run2 run3 run4 by (simp add: Let_def)
  have 1: "lookup ?w5 q = lookup w q"
    if q: "q \<noteq> ?L" "q \<noteq> ?U" "\<forall>c\<in>set all_categories. q \<noteq> ?R @ [c]"
      "\<not> is_log_file ?R q" for q
  proof -
    have "lookup ?w5 q = lookup w2 q" using u(1) [of q] l3 [of q] q(1,2,3) by auto
    with F [OF q] show ?thesis by simp
  qed
  have 2: "lookup ?w5 (?R @ [c]) = (if children w (?R @ [c]) = [] then None else Some Dir)"
    if c: "c \<in> set all_categories" for c
  proof -
    let ?q = "?R @ [c]"
    have nU: "?q \<noteq> ?U" by (simp add: UNDO_FILE_def LOG_FOLDER_def)
    have a: "lookup ?w5 ?q =
      (if is_dir w2 ?q \<and> children w ?q = [] then None else lookup wa ?q)"
      using u(1) [of ?q] l3 [of ?q] nU c K [OF c] G [OF c] by auto
    show ?thesis
    proof (cases "children w ?q = []")
      case True
      from H [OF c] have "lookup wa ?q = None \<or> lookup wa ?q = Some Dir"
        by (cases "lookup wa ?q"; simp add: is_file_iff; metis node.exhaust)
      with a True G [OF c] show ?thesis by (auto simp: is_dir_iff)
    next
      case False
      then obtain k where "k \<in> set (children w ?q)" by (cases "children w ?q") auto
      then have "k \<noteq> []" "parent k = ?q" "lookup w k \<noteq> None"
        unfolding set_children by simp_all
      with tree [of k] have "is_dir w ?q" by simp
      with H [OF c] have "lookup wa ?q = Some Dir" by (auto simp: is_dir_iff)
      with a False show ?thesis by simp
    qed
  qed
  have 3: "lookup ?w5 ?L = Some Dir"
  proof -
    have "lookup w2 ?L = lookup wa ?L"
    proof (rule rest)
      show "?L \<notin> fst ` set ms" using fst_neq(2) by force
      show "?L \<notin> snd ` set ms" using snd_neq(3) by force
    qed
    with u(1) [of ?L] l3 [of ?L] notcat(2) LU logdir show ?thesis
      by (simp add: is_dir_iff)
  qed
  have 4: "lookup ?w5 ?U = None" using u(1) [of ?U] by simp
  from run 1 2 3 4 show ?thesis by (intro exI [of _ ?w5]) blast
qed

subsection \<open>The round trip\<close>

lemma tree_shaped_entry:
  assumes "tree_shaped w" "k \<noteq> []" "lookup w k \<noteq> None"
  shows "is_dir w (parent k)" and "list_all valid_name k"
proof -
  from assms(2,3) obtain v where "map_of (fs w) k = Some v" by (auto simp: lookup_def)
  then have "(k, v) \<in> set (fs w)" by (rule map_of_SomeD)
  with assms(1) show "is_dir w (parent k)" and "list_all valid_name k"
    by (auto simp: tree_shaped_def list_all_iff)
qed

lemma no_category_file:
  assumes "\<forall>p\<in>set (children w SOURCE_FOLDER). eligible w p \<longrightarrow> name p \<notin> set all_categories"
    and "c \<in> set all_categories"
  shows "\<not> is_file w (SOURCE_FOLDER @ [c])"
proof
  assume f: "is_file w (SOURCE_FOLDER @ [c])"
  then have "SOURCE_FOLDER @ [c] \<in> set (children w SOURCE_FOLDER)"
    unfolding set_children by (auto simp: parent_def is_file_iff)
  moreover from assms(2) have "c \<noteq> ''organizer.py''" by (auto simp: all_categories_def)
  with f have "eligible w (SOURCE_FOLDER @ [c])" by (simp add: eligible_def name_def)
  ultimately have "name (SOURCE_FOLDER @ [c]) \<notin> set all_categories" using assms(1) by blast
  with assms(2) show False by (simp add: name_def)
qed




end
